theory Spec2Isabelle
  imports Main
begin

section \<open>Status codes\<close>

text \<open>
  \<open>apr_status_t\<close> is a C \<open>int\<close>. The numeric values come from the APR and httpd
  headers; the code below only compares them for equality.
\<close>

type_synonym apr_status_t = int

definition APR_SUCCESS :: apr_status_t where "APR_SUCCESS = 0"
definition APR_EAGAIN :: apr_status_t where "APR_EAGAIN = 11"
definition APR_EGENERAL :: apr_status_t where "APR_EGENERAL = 20014"
definition APR_CHILD_DONE :: apr_status_t where "APR_CHILD_DONE = 70005"
definition APR_CHILD_NOTDONE :: apr_status_t where "APR_CHILD_NOTDONE = 70006"
definition APR_EOF :: apr_status_t where "APR_EOF = 70014"
definition DECLINED :: int where "DECLINED = - 1"

section \<open>server/mpm\_unix.c: the list of extra processes\<close>

text \<open>
  \<open>extras\<close> is a singly linked list of \<open>extra_process_t\<close> nodes, each holding one
  \<open>pid_t\<close>. It is modelled as the list of the pids, head first.
\<close>

type_synonym pid_t = int

definition ap_register_extra_mpm_process :: "pid_t \<Rightarrow> pid_t list \<Rightarrow> pid_t list" where
  "ap_register_extra_mpm_process pid extras = pid # extras"

text \<open>
  The search loop stops at the first node whose pid matches and unlinks that node only.
  The result is the return value (1 found, 0 not found) and the new list.
\<close>

fun ap_unregister_extra_mpm_process :: "pid_t \<Rightarrow> pid_t list \<Rightarrow> int \<times> pid_t list" where
  "ap_unregister_extra_mpm_process pid [] = (0, [])"
| "ap_unregister_extra_mpm_process pid (cur # rest) =
     (if cur \<noteq> pid
      then (case ap_unregister_extra_mpm_process pid rest of
              (found, rest') \<Rightarrow> (found, cur # rest'))
      else (1, rest))"

datatype extra_op = Register pid_t | Unregister pid_t

fun apply_extra_op :: "pid_t list \<Rightarrow> extra_op \<Rightarrow> pid_t list" where
  "apply_extra_op extras (Register pid) = ap_register_extra_mpm_process pid extras"
| "apply_extra_op extras (Unregister pid) = snd (ap_unregister_extra_mpm_process pid extras)"

definition run_extra_ops :: "extra_op list \<Rightarrow> pid_t list \<Rightarrow> pid_t list" where
  "run_extra_ops ops extras = foldl apply_extra_op extras ops"

text \<open>
  A caller discipline: a pid is only registered while it is not in the list.
\<close>

fun registers_fresh :: "extra_op list \<Rightarrow> pid_t list \<Rightarrow> bool" where
  "registers_fresh [] extras = True"
| "registers_fresh (Register pid # ops) extras =
     (pid \<notin> set extras \<and> registers_fresh ops (apply_extra_op extras (Register pid)))"
| "registers_fresh (Unregister pid # ops) extras =
     registers_fresh ops (apply_extra_op extras (Unregister pid))"

section \<open>server/mpm\_unix.c: reclaiming child processes\<close>

datatype action_t = DO_NOTHING | SEND_SIGTERM | SEND_SIGKILL | GIVEUP

datatype signal_t = SIGTERM | SIGKILL

datatype log_level = APLOG_ERR | APLOG_WARNING | APLOG_NOTICE | APLOG_DEBUG

text \<open>
  The environment of a reclaim run. \<open>apr_time_t\<close> counts microseconds in a signed
  64-bit integer; the values here stay far below its range, so it is an \<open>int\<close>.
  \<^item> \<open>proc_wait n pid\<close> is what the \<open>n\<close>-th call of \<open>apr_proc_wait\<close> (with
    \<open>APR_NOWAIT\<close>) answers for \<open>pid\<close>.
  \<^item> \<open>apr_sleep\<close> returns after the time asked for or later, never earlier:
    \<open>sleep_overrun n\<close> is how much later the clock stands when \<open>apr_time_now\<close> is
    read after the \<open>n\<close>-th sleep.
  \<^item> \<open>max_daemons\<close> is the answer of \<open>ap_mpm_query\<close>, \<open>note_child_killed\<close> is the
    MPM's \<open>ap_mpm_note_child_killed\<close> acting on the scoreboard, and \<open>ap_debug\<close>
    tells whether \<open>AP_DEBUG_ASSERT\<close> evaluates its argument (it expands to nothing in
    a build without \<open>AP_DEBUG\<close>).
\<close>

record reclaim_env =
  proc_wait :: "nat \<Rightarrow> pid_t \<Rightarrow> apr_status_t"
  sleep_overrun :: "nat \<Rightarrow> nat"
  max_daemons :: nat
  note_child_killed :: "nat \<Rightarrow> (nat \<Rightarrow> pid_t) \<Rightarrow> (nat \<Rightarrow> pid_t)"
  ap_debug :: bool

datatype reclaim_event =
    ChildStatus pid_t
  | LogChild log_level pid_t string
  | Kill pid_t signal_t

text \<open>
  The state of a run: the local variables of \<open>ap_reclaim_child_processes\<close>, the clock,
  the scoreboard pids and the list of extra processes. \<open>sleeps\<close> and \<open>waits\<close> count
  the calls of \<open>apr_sleep\<close> and \<open>apr_proc_wait\<close>, \<open>slept\<close> adds up the time asked
  of \<open>apr_sleep\<close>, \<open>events\<close> collects what was done to the children, and \<open>history\<close>
  has one entry per poll: the elapsed time read, \<open>cur_action\<close> and \<open>not_dead_yet\<close>.
\<close>

record reclaim_state =
  waittime :: int
  next_action :: nat
  starttime :: int
  now :: int
  scoreboard :: "nat \<Rightarrow> pid_t"
  extras :: "pid_t list"
  sleeps :: nat
  waits :: nat
  slept :: int
  events :: "reclaim_event list"
  history :: "(int \<times> nat \<times> int) list"

definition apr_time_from_sec :: "int \<Rightarrow> int" where
  "apr_time_from_sec sec = sec * 1000000"

definition action_table :: "(action_t \<times> int) list" where
  "action_table =
     [(DO_NOTHING, 0),
      (SEND_SIGTERM, apr_time_from_sec 3),
      (SEND_SIGTERM, apr_time_from_sec 5),
      (SEND_SIGTERM, apr_time_from_sec 7),
      (SEND_SIGKILL, apr_time_from_sec 9),
      (GIVEUP, apr_time_from_sec 10)]"

text \<open>
  \<open>reclaim_one_pid\<close>: 1 when the process is gone (or the pid is not sane), 0 when it is
  still running, after the action has been applied to it.
\<close>

definition reclaim_one_pid ::
  "reclaim_env \<Rightarrow> pid_t \<Rightarrow> action_t \<Rightarrow> reclaim_state \<Rightarrow> int \<times> reclaim_state" where
  "reclaim_one_pid env pid action st =
     (if pid < 1 then (1, st)
      else
        (let waitret = proc_wait env (waits st) pid;
             st1 = st\<lparr>waits := waits st + 1\<rparr>
         in if waitret \<noteq> APR_CHILD_NOTDONE then
              (if waitret = APR_CHILD_DONE
               then (1, st1\<lparr>events := events st1 @ [ChildStatus pid]\<rparr>)
               else (1, st1))
            else
              (case action of
                 DO_NOTHING \<Rightarrow> (0, st1)
               | SEND_SIGTERM \<Rightarrow>
                   (0, st1\<lparr>events := events st1 @
                         [LogChild APLOG_WARNING pid ''still did not exit, sending a SIGTERM'',
                          Kill pid SIGTERM]\<rparr>)
               | SEND_SIGKILL \<Rightarrow>
                   (0, st1\<lparr>events := events st1 @
                         [LogChild APLOG_ERR pid ''still did not exit, sending a SIGKILL'',
                          Kill pid SIGKILL]\<rparr>)
               | GIVEUP \<Rightarrow>
                   (0, st1\<lparr>events := events st1 @
                         [LogChild APLOG_ERR pid
                            ''could not make child process exit, attempting to continue anyway'']\<rparr>))))"

text \<open>One slot of the scoreboard loop; the second component is \<open>not_dead_yet\<close>.\<close>

definition reclaim_slot ::
  "reclaim_env \<Rightarrow> action_t \<Rightarrow> nat \<Rightarrow> reclaim_state \<times> int \<Rightarrow> reclaim_state \<times> int" where
  "reclaim_slot env action i acc =
     (case acc of (st, not_dead_yet) \<Rightarrow>
        (let pid = scoreboard st i in
         if pid = 0 then (st, not_dead_yet)
         else (case reclaim_one_pid env pid action st of
                 (r, st') \<Rightarrow>
                   if r \<noteq> 0
                   then (st'\<lparr>scoreboard := note_child_killed env i (scoreboard st')\<rparr>,
                         not_dead_yet)
                   else (st', not_dead_yet + 1))))"

text \<open>
  One node of the walk over the extra processes. The walk follows the \<open>next\<close>
  pointers saved before each call, so it visits the nodes the list had when the walk
  began; \<open>ap_unregister_extra_mpm_process\<close> unlinks the first node with the pid.
\<close>

definition reclaim_extra ::
  "reclaim_env \<Rightarrow> action_t \<Rightarrow> pid_t \<Rightarrow> reclaim_state \<times> int \<Rightarrow> reclaim_state \<times> int" where
  "reclaim_extra env action pid acc =
     (case acc of (st, not_dead_yet) \<Rightarrow>
        (case reclaim_one_pid env pid action st of
           (r, st') \<Rightarrow>
             if r \<noteq> 0
             then ((if ap_debug env
                    then st'\<lparr>extras := snd (ap_unregister_extra_mpm_process pid (extras st'))\<rparr>
                    else st'),
                   not_dead_yet)
             else (st', not_dead_yet + 1)))"

definition reclaim_pass ::
  "reclaim_env \<Rightarrow> action_t \<Rightarrow> reclaim_state \<Rightarrow> reclaim_state \<times> int" where
  "reclaim_pass env action st =
     (let acc1 = fold (reclaim_slot env action) [0..<max_daemons env] (st, 0)
      in fold (reclaim_extra env action) (extras (fst acc1)) acc1)"

text \<open>
  The body of the \<open>do ... while\<close> loop, with the value of the loop condition. Reading
  \<open>action_table\<close> past its end is \<open>None\<close>.
\<close>

definition reclaim_iteration :: "reclaim_env \<Rightarrow> reclaim_state \<Rightarrow> (bool \<times> reclaim_state) option" where
  "reclaim_iteration env st =
     (let st1 = st\<lparr>now := now st + waittime st + int (sleep_overrun env (sleeps st)),
                   sleeps := sleeps st + 1,
                   slept := slept st + waittime st\<rparr>;
          w = waittime st1 * 4;
          st2 = st1\<lparr>waittime := (if w > apr_time_from_sec 1 then apr_time_from_sec 1 else w)\<rparr>
      in if next_action st2 \<ge> length action_table then None
         else
           (let elapsed = now st2 - starttime st2;
                fire = (snd (action_table ! next_action st2) \<le> elapsed);
                cur_action = (if fire then next_action st2 else 0);
                st3 = (if fire then st2\<lparr>next_action := next_action st2 + 1\<rparr> else st2);
                action = fst (action_table ! cur_action)
            in (case reclaim_pass env action st3 of
                  (st4, not_dead_yet) \<Rightarrow>
                    Some (not_dead_yet > 0 \<and> action \<noteq> GIVEUP,
                          st4\<lparr>history := history st4 @ [(elapsed, cur_action, not_dead_yet)]\<rparr>))))"

partial_function (option) reclaim_loop :: "reclaim_env \<Rightarrow> reclaim_state \<Rightarrow> reclaim_state option" where
  "reclaim_loop env st =
     (case reclaim_iteration env st of
        None \<Rightarrow> None
      | Some (again, st') \<Rightarrow> if again then reclaim_loop env st' else Some st')"

declare reclaim_loop.simps [code]

text \<open>
  \<open>ap_reclaim_child_processes\<close>, started at clock reading \<open>t0\<close> with the given
  scoreboard and extra processes. (The argument \<open>terminate\<close> is not used by the C
  function.)
\<close>

definition reclaim_start :: "int \<Rightarrow> (nat \<Rightarrow> pid_t) \<Rightarrow> pid_t list \<Rightarrow> reclaim_state" where
  "reclaim_start t0 sb ex =
     \<lparr> waittime = 1024 * 16, next_action = 1, starttime = t0, now = t0,
       scoreboard = sb, extras = ex, sleeps = 0, waits = 0, slept = 0,
       events = [], history = [] \<rparr>"

definition ap_reclaim_child_processes ::
  "reclaim_env \<Rightarrow> int \<Rightarrow> (nat \<Rightarrow> pid_t) \<Rightarrow> pid_t list \<Rightarrow> reclaim_state option" where
  "ap_reclaim_child_processes env t0 sb ex = reclaim_loop env (reclaim_start t0 sb ex)"


text \<open>
  The rule the loop follows, read on a history: an entry of the table is taken at the
  first poll at which its threshold has been reached and the entries before it have
  been taken; every other poll takes entry 0.
\<close>

fun follows_timeline :: "nat \<Rightarrow> (int \<times> nat \<times> int) list \<Rightarrow> bool" where
  "follows_timeline nxt [] = True"
| "follows_timeline nxt ((elapsed, cur, ndy) # rest) =
     (nxt < length action_table \<and>
      (if snd (action_table ! nxt) \<le> elapsed
       then cur = nxt \<and> follows_timeline (nxt + 1) rest
       else cur = 0 \<and> follows_timeline nxt rest))"

text \<open>
  What a pass over the children leaves alone: the timing variables and the history.
\<close>

definition same_timing :: "reclaim_state \<Rightarrow> reclaim_state \<Rightarrow> bool" where
  "same_timing st st' =
     (waittime st' = waittime st \<and> next_action st' = next_action st
      \<and> starttime st' = starttime st \<and> now st' = now st
      \<and> sleeps st' = sleeps st \<and> slept st' = slept st \<and> history st' = history st)"

text \<open>
  The schedule of the loop when every sleep is exact: the time asked of the
  \<open>k+1\<close>-th sleep, the time slept in the first \<open>k\<close> sleeps, and the entry of the
  table that is next after \<open>k\<close> polls.
\<close>

definition poll_waittime :: "nat \<Rightarrow> int" where
  "poll_waittime k =
     (if k = 0 then 16384 else if k = 1 then 65536 else if k = 2 then 262144 else 1000000)"

definition poll_slept :: "nat \<Rightarrow> int" where
  "poll_slept k =
     (if k = 0 then 0 else if k = 1 then 16384 else if k = 2 then 81920
      else 344064 + (int k - 3) * 1000000)"

definition poll_next :: "nat \<Rightarrow> nat" where
  "poll_next k =
     (if k < 6 then 1 else if k < 8 then 2 else if k < 10 then 3 else if k < 12 then 4 else 5)"

text \<open>
  After \<open>k\<close> polls: the sleeps asked for so far follow the schedule, the clock has
  advanced by at least the time slept, and at least the entries of the exact schedule
  have been taken.
\<close>

definition on_schedule :: "nat \<Rightarrow> reclaim_state \<Rightarrow> bool" where
  "on_schedule k st =
     (sleeps st = k \<and> waittime st = poll_waittime k \<and> slept st = poll_slept k
      \<and> poll_slept k \<le> now st - starttime st
      \<and> poll_next k \<le> next_action st \<and> next_action st \<le> 5)"

text \<open>The entry that is next after the polls of a history.\<close>

fun next_after :: "nat \<Rightarrow> (int \<times> nat \<times> int) list \<Rightarrow> nat" where
  "next_after nxt [] = nxt"
| "next_after nxt ((elapsed, cur, ndy) # rest) =
     next_after (if snd (action_table ! nxt) \<le> elapsed then nxt + 1 else nxt) rest"

text \<open>
  Properties of one entry of the history: the entry of the table taken at a poll has
  its threshold at or before the elapsed time of the poll; the loop goes on after it.
\<close>

definition poll_not_early :: "int \<times> nat \<times> int \<Rightarrow> bool" where
  "poll_not_early p =
     (case p of (elapsed, cur, ndy) \<Rightarrow>
        cur < length action_table \<and> snd (action_table ! cur) \<le> elapsed)"

definition poll_continues :: "int \<times> nat \<times> int \<Rightarrow> bool" where
  "poll_continues p =
     (case p of (elapsed, cur, ndy) \<Rightarrow> ndy > 0 \<and> fst (action_table ! cur) \<noteq> GIVEUP)"

definition taken_entries :: "(int \<times> nat \<times> int) list \<Rightarrow> nat list" where
  "taken_entries h = filter (\<lambda>cur. cur \<noteq> 0) (map (\<lambda>p. fst (snd p)) h)"

text \<open>What holds of the timing and of the history, whatever the children do.\<close>

definition timeline_facts :: "reclaim_env \<Rightarrow> reclaim_state \<Rightarrow> bool" where
  "timeline_facts env st =
     (length (history st) = sleeps st
      \<and> follows_timeline 1 (history st)
      \<and> next_action st = next_after 1 (history st)
      \<and> list_all poll_not_early (history st)
      \<and> taken_entries (history st) = [1..<next_action st]
      \<and> 1 \<le> next_action st
      \<and> now st - starttime st = slept st + (\<Sum>i<sleeps st. int (sleep_overrun env i)))"

definition loop_head :: "reclaim_env \<Rightarrow> reclaim_state \<Rightarrow> bool" where
  "loop_head env st = (timeline_facts env st \<and> list_all poll_continues (history st))"

definition loop_exit :: "reclaim_env \<Rightarrow> reclaim_state \<Rightarrow> bool" where
  "loop_exit env st =
     (timeline_facts env st
      \<and> history st \<noteq> []
      \<and> list_all poll_continues (butlast (history st))
      \<and> (case last (history st) of
            (elapsed, cur, ndy) \<Rightarrow> ndy = 0 \<or> fst (action_table ! cur) = GIVEUP))"


text \<open>
  The state at the head of the loop after \<open>k\<close> polls, each of which found the loop
  condition true.
\<close>

fun after_polls :: "reclaim_env \<Rightarrow> nat \<Rightarrow> reclaim_state \<Rightarrow> reclaim_state option" where
  "after_polls env 0 st = Some st"
| "after_polls env (Suc k) st =
     (case after_polls env k st of
        None \<Rightarrow> None
      | Some s \<Rightarrow>
          (case reclaim_iteration env s of
             None \<Rightarrow> None
           | Some (again, s') \<Rightarrow> if again then Some s' else None))"

text \<open>
  One poll as the specification words it. The known workers are the pids of the
  scoreboard slots below \<open>max_daemons\<close> and the extra processes, in this order; a pid
  below 1 is no worker. Each worker is asked once, without blocking, whether it has
  exited: the first at wait number \<open>n\<close>, the next at \<open>n + 1\<close>, and so on. A worker
  that is still alive gets the action of the poll; one that has exited has its exit
  status processed; one that cannot be waited for gets nothing.

  The scoreboard belongs to the MPM, and its pids are read slot by slot during the
  poll: \<open>table_workers\<close> are the workers as the poll finds them, where the MPM is told
  of every slot in use whose process is not running (\<open>ap_mpm_note_child_killed\<close>)
  before the next slot is read.
\<close>

definition still_alive :: "reclaim_env \<Rightarrow> nat \<Rightarrow> pid_t \<Rightarrow> bool" where
  "still_alive env n pid = (proc_wait env n pid = APR_CHILD_NOTDONE)"

fun table_workers :: "reclaim_env \<Rightarrow> nat \<Rightarrow> (nat \<Rightarrow> pid_t) \<Rightarrow> nat list \<Rightarrow> pid_t list" where
  "table_workers env n sb [] = []"
| "table_workers env n sb (i # slots) =
     (if sb i = 0 then table_workers env n sb slots
      else if sb i < 1 then table_workers env n (note_child_killed env i sb) slots
      else sb i # table_workers env (Suc n)
                    (if still_alive env n (sb i) then sb else note_child_killed env i sb)
                    slots)"

definition known_workers :: "reclaim_env \<Rightarrow> reclaim_state \<Rightarrow> pid_t list" where
  "known_workers env st =
     table_workers env (waits st) (scoreboard st) [0..<max_daemons env]
     @ filter (\<lambda>pid. 1 \<le> pid) (extras st)"

definition action_events :: "action_t \<Rightarrow> pid_t \<Rightarrow> reclaim_event list" where
  "action_events action pid =
     (case action of
        DO_NOTHING \<Rightarrow> []
      | SEND_SIGTERM \<Rightarrow>
          [LogChild APLOG_WARNING pid ''still did not exit, sending a SIGTERM'',
           Kill pid SIGTERM]
      | SEND_SIGKILL \<Rightarrow>
          [LogChild APLOG_ERR pid ''still did not exit, sending a SIGKILL'',
           Kill pid SIGKILL]
      | GIVEUP \<Rightarrow>
          [LogChild APLOG_ERR pid
             ''could not make child process exit, attempting to continue anyway''])"

fun poll_events :: "reclaim_env \<Rightarrow> action_t \<Rightarrow> nat \<Rightarrow> pid_t list \<Rightarrow> reclaim_event list" where
  "poll_events env action n [] = []"
| "poll_events env action n (pid # workers) =
     (if still_alive env n pid then action_events action pid
      else if proc_wait env n pid = APR_CHILD_DONE then [ChildStatus pid]
      else [])
     @ poll_events env action (Suc n) workers"

fun alive_count :: "reclaim_env \<Rightarrow> nat \<Rightarrow> pid_t list \<Rightarrow> nat" where
  "alive_count env n [] = 0"
| "alive_count env n (pid # workers) =
     (if still_alive env n pid then 1 else 0) + alive_count env (Suc n) workers"

text \<open>
  The entry of the timeline that a poll applies, by the rule of the loop: the clock is
  read after the sleep; the next entry not applied so far is applied when its
  threshold is at most the elapsed time, and entry 0 otherwise.
\<close>

definition poll_elapsed :: "reclaim_env \<Rightarrow> reclaim_state \<Rightarrow> int" where
  "poll_elapsed env st =
     now st + waittime st + int (sleep_overrun env (sleeps st)) - starttime st"

definition poll_due :: "reclaim_env \<Rightarrow> reclaim_state \<Rightarrow> bool" where
  "poll_due env st = (snd (action_table ! next_action st) \<le> poll_elapsed env st)"

definition poll_entry :: "reclaim_env \<Rightarrow> reclaim_state \<Rightarrow> nat" where
  "poll_entry env st = (if poll_due env st then next_action st else 0)"

definition poll_action :: "reclaim_env \<Rightarrow> reclaim_state \<Rightarrow> action_t" where
  "poll_action env st = fst (action_table ! poll_entry env st)"

text \<open>
  An MPM whose bookkeeping for slot \<open>i\<close> leaves the pids of the slots after \<open>i\<close> as
  they are: then the workers that a poll finds in the scoreboard are the pids that the
  scoreboard held when the poll began.
\<close>

definition table_frame :: "reclaim_env \<Rightarrow> bool" where
  "table_frame env = (\<forall>i sb j. i < j \<longrightarrow> note_child_killed env i sb j = sb j)"

text \<open>
  A poll from the state \<open>st\<close> at the head of the loop to the state \<open>st'\<close> did what the
  specification says: every known worker still alive got the action of the poll and
  nothing else was done to the children; the poll is entered in the history with its
  elapsed time, its entry of the timeline and the number of workers still alive.
\<close>

definition poll_applies :: "reclaim_env \<Rightarrow> reclaim_state \<Rightarrow> reclaim_state \<Rightarrow> bool" where
  "poll_applies env st st' =
     (events st' = events st
          @ poll_events env (poll_action env st) (waits st) (known_workers env st)
      \<and> history st' = history st
          @ [(poll_elapsed env st, poll_entry env st,
              int (alive_count env (waits st) (known_workers env st)))]
      \<and> next_action st' = (if poll_due env st then next_action st + 1 else next_action st))"

text \<open>
  The loop goes on after a poll exactly when a known worker is still alive and the
  poll did not apply the give-up action.
\<close>

definition poll_goes_on :: "reclaim_env \<Rightarrow> reclaim_state \<Rightarrow> bool" where
  "poll_goes_on env st =
     (0 < alive_count env (waits st) (known_workers env st) \<and> poll_action env st \<noteq> GIVEUP)"

section \<open>server/mpm\_unix.c: the pipe of death\<close>

text \<open>
  What the operating system and APR answer is the environment of these functions: the
  status of the write into the pipe and of each socket call, and the configured
  listeners. What the functions do to the outside is recorded as a list of events.
\<close>

record ap_listen_rec =
  protocol :: "string option"
  bind_addr :: string

record pod_env =
  file_write_rv :: apr_status_t
  pool_create_rv :: apr_status_t
  socket_create_rv :: apr_status_t
  socket_timeout_set_rv :: apr_status_t
  socket_connect_rv :: apr_status_t
  is_timeup :: "apr_status_t \<Rightarrow> bool"
  ap_listeners :: "ap_listen_rec list"
  server_description :: string

datatype pod_event =
    FileWrite char
  | Log log_level apr_status_t string
  | SocketCreate string
  | SocketTimeoutSet nat
  | SocketConnect string
  | SocketSend string
  | SocketClose

definition is_socket_event :: "pod_event \<Rightarrow> bool" where
  "is_socket_event e =
     (case e of SocketCreate a \<Rightarrow> True | SocketTimeoutSet n \<Rightarrow> True
      | SocketConnect a \<Rightarrow> True | SocketSend s \<Rightarrow> True | SocketClose \<Rightarrow> True
      | FileWrite c \<Rightarrow> False | Log l st m \<Rightarrow> False)"

definition pod_signal_internal :: "pod_env \<Rightarrow> apr_status_t \<times> pod_event list" where
  "pod_signal_internal env =
     (let char_of_death = CHR ''!'';
          rv = file_write_rv env
      in if rv \<noteq> APR_SUCCESS
         then (rv, [FileWrite char_of_death, Log APLOG_WARNING rv ''write pipe_of_death''])
         else (rv, [FileWrite char_of_death]))"

text \<open>\<open>strcasecmp\<close> on ASCII: both strings are compared in lower case.\<close>

definition tolower_c :: "char \<Rightarrow> char" where
  "tolower_c c =
     (let n = (of_char c :: nat) in if 65 \<le> n \<and> n \<le> 90 then char_of (n + 32) else c)"

definition strcasecmp_eq :: "string \<Rightarrow> string \<Rightarrow> bool" where
  "strcasecmp_eq a b = (map tolower_c a = map tolower_c b)"

text \<open>
  The listener search: the first listener without a protocol or with protocol
  \<open>http\<close>; when there is none, the first listener of the list.
\<close>

fun find_http_listener :: "ap_listen_rec list \<Rightarrow> ap_listen_rec option" where
  "find_http_listener [] = None"
| "find_http_listener (lp # rest) =
     (case protocol lp of
        None \<Rightarrow> Some lp
      | Some pr \<Rightarrow> if \<not> strcasecmp_eq pr ''http'' then find_http_listener rest else Some lp)"

text \<open>
  \<open>dummy_connection\<close> dereferences \<open>lp\<close> without a check: with no listener at all
  the C code reads through a null pointer, which the model reports as \<open>None\<close>.
\<close>

definition dummy_connection :: "pod_env \<Rightarrow> (apr_status_t \<times> pod_event list) option" where
  "dummy_connection env =
     (if pool_create_rv env \<noteq> APR_SUCCESS then Some (pool_create_rv env, [])
      else
        (case (case find_http_listener (ap_listeners env) of
                 None \<Rightarrow> (case ap_listeners env of [] \<Rightarrow> None | l # ls \<Rightarrow> Some l)
               | Some l \<Rightarrow> Some l) of
           None \<Rightarrow> None
         | Some lp \<Rightarrow>
             if socket_create_rv env \<noteq> APR_SUCCESS
             then Some (socket_create_rv env,
                        [SocketCreate (bind_addr lp),
                         Log APLOG_WARNING (socket_create_rv env)
                           ''get socket to connect to listener''])
             else if socket_timeout_set_rv env \<noteq> APR_SUCCESS
             then Some (socket_timeout_set_rv env,
                        [SocketCreate (bind_addr lp), SocketTimeoutSet 3000000,
                         Log APLOG_WARNING (socket_timeout_set_rv env)
                           ''set timeout on socket to connect to listener'',
                         SocketClose])
             else
               (let rv = socket_connect_rv env;
                    logged =
                      (if rv \<noteq> APR_SUCCESS
                       then [Log (if is_timeup env rv then APLOG_DEBUG else APLOG_WARNING) rv
                               ''connect to listener'']
                       else []);
                    srequest = ''OPTIONS * HTTP/1.0'' @ [CHR 0x0D, CHR 0x0A] @ ''User-Agent: ''
                               @ server_description env @ '' (internal dummy connection)''
                               @ [CHR 0x0D, CHR 0x0A, CHR 0x0D, CHR 0x0A]
                in Some (rv,
                         [SocketCreate (bind_addr lp), SocketTimeoutSet 3000000,
                          SocketConnect (bind_addr lp)] @ logged
                         @ [SocketSend srequest, SocketClose]))))"

definition ap_mpm_pod_signal :: "pod_env \<Rightarrow> (apr_status_t \<times> pod_event list) option" where
  "ap_mpm_pod_signal env =
     (case pod_signal_internal env of
        (rv, evs) \<Rightarrow>
          if rv \<noteq> APR_SUCCESS then Some (rv, evs)
          else (case dummy_connection env of
                  None \<Rightarrow> None
                | Some (rv', evs') \<Rightarrow> Some (rv', evs @ evs')))"

section \<open>modules/http2/h2\_h2.c: security compliance\<close>

text \<open>
  A connection, as far as \<open>h2_h2.c\<close> looks at it: the module configuration
  (\<open>H2_CONF_DIRECT\<close>, \<open>H2_CONF_COMPLIANCE\<close>), the \<open>h2_ctx\<close> of the connection, the
  protocol the core reports (\<open>ap_get_protocol\<close>), and what mod\_ssl knows about it.
\<close>

record h2_config =
  h2_direct :: int
  h2_compliance :: int

record h2_ctx =
  ctx_protocol :: "string option"
  ctx_task :: bool

record conn_rec =
  conn_cfg :: h2_config
  conn_ctx :: h2_ctx
  conn_protocol :: string
  ssl_https :: int
  ssl_vars :: "string \<Rightarrow> string option"

text \<open>
  The optional functions of mod\_ssl are function pointers that stay \<open>NULL\<close> when
  mod\_ssl is not loaded. \<open>optional_fns\<close> is what \<open>APR_RETRIEVE_OPTIONAL_FN\<close>
  finds; \<open>h2_globals\<close> are the file's static variables.
\<close>

record optional_fns =
  reg_ssl_engine_disable :: "(conn_rec \<Rightarrow> int) option"
  reg_ssl_is_https :: "(conn_rec \<Rightarrow> int) option"
  reg_ssl_var_lookup :: "(conn_rec \<Rightarrow> string \<Rightarrow> string option) option"

record h2_globals =
  opt_ssl_engine_disable :: "(conn_rec \<Rightarrow> int) option"
  opt_ssl_is_https :: "(conn_rec \<Rightarrow> int) option"
  opt_ssl_var_lookup :: "(conn_rec \<Rightarrow> string \<Rightarrow> string option) option"
  BLCNames :: "string \<rightharpoonup> string"

text \<open>What mod\_ssl registers when it is loaded.\<close>

definition mod_ssl_fns :: optional_fns where
  "mod_ssl_fns =
     \<lparr> reg_ssl_engine_disable = Some (\<lambda>c. 1),
       reg_ssl_is_https = Some ssl_https,
       reg_ssl_var_lookup = Some ssl_vars \<rparr>"

definition RFC7540_names :: "string list" where
  "RFC7540_names = [
    ''NULL-MD5'', ''NULL-SHA'', ''NULL-SHA256'', ''PSK-NULL-SHA'', ''DHE-PSK-NULL-SHA'',
    ''RSA-PSK-NULL-SHA'', ''PSK-NULL-SHA256'', ''PSK-NULL-SHA384'',
    ''DHE-PSK-NULL-SHA256'', ''DHE-PSK-NULL-SHA384'', ''RSA-PSK-NULL-SHA256'',
    ''RSA-PSK-NULL-SHA384'', ''ECDH-ECDSA-NULL-SHA'', ''ECDHE-ECDSA-NULL-SHA'',
    ''ECDH-RSA-NULL-SHA'', ''ECDHE-RSA-NULL-SHA'', ''AECDH-NULL-SHA'',
    ''ECDHE-PSK-NULL-SHA'', ''ECDHE-PSK-NULL-SHA256'', ''ECDHE-PSK-NULL-SHA384'',
    ''PSK-3DES-EDE-CBC-SHA'', ''DHE-PSK-3DES-EDE-CBC-SHA'', ''RSA-PSK-3DES-EDE-CBC-SHA'',
    ''ECDH-ECDSA-DES-CBC3-SHA'', ''ECDHE-ECDSA-DES-CBC3-SHA'', ''ECDH-RSA-DES-CBC3-SHA'',
    ''ECDHE-RSA-DES-CBC3-SHA'', ''AECDH-DES-CBC3-SHA'', ''SRP-3DES-EDE-CBC-SHA'',
    ''SRP-RSA-3DES-EDE-CBC-SHA'', ''SRP-DSS-3DES-EDE-CBC-SHA'',
    ''ECDHE-PSK-3DES-EDE-CBC-SHA'', ''DES-CBC-SHA'', ''DES-CBC3-SHA'',
    ''DHE-DSS-DES-CBC3-SHA'', ''DHE-RSA-DES-CBC-SHA'', ''DHE-RSA-DES-CBC3-SHA'',
    ''ADH-DES-CBC-SHA'', ''ADH-DES-CBC3-SHA'', ''EXP-DH-DSS-DES-CBC-SHA'',
    ''DH-DSS-DES-CBC-SHA'', ''DH-DSS-DES-CBC3-SHA'', ''EXP-DH-RSA-DES-CBC-SHA'',
    ''DH-RSA-DES-CBC-SHA'', ''DH-RSA-DES-CBC3-SHA'', ''EXP-RC4-MD5'',
    ''EXP-RC2-CBC-MD5'', ''EXP-DES-CBC-SHA'', ''EXP-DHE-DSS-DES-CBC-SHA'',
    ''EXP-DHE-RSA-DES-CBC-SHA'', ''EXP-ADH-DES-CBC-SHA'', ''EXP-ADH-RC4-MD5'',
    ''RC4-MD5'', ''RC4-SHA'', ''ADH-RC4-MD5'', ''KRB5-RC4-SHA'', ''KRB5-RC4-MD5'',
    ''EXP-KRB5-RC4-SHA'', ''EXP-KRB5-RC4-MD5'', ''PSK-RC4-SHA'', ''DHE-PSK-RC4-SHA'',
    ''RSA-PSK-RC4-SHA'', ''ECDH-ECDSA-RC4-SHA'', ''ECDHE-ECDSA-RC4-SHA'',
    ''ECDH-RSA-RC4-SHA'', ''ECDHE-RSA-RC4-SHA'', ''AECDH-RC4-SHA'',
    ''ECDHE-PSK-RC4-SHA'', ''AES128-SHA256'', ''DH-DSS-AES128-SHA'',
    ''DH-RSA-AES128-SHA'', ''DHE-DSS-AES128-SHA'', ''DHE-RSA-AES128-SHA'',
    ''ADH-AES128-SHA'', ''AES128-SHA256'', ''DH-DSS-AES128-SHA256'',
    ''DH-RSA-AES128-SHA256'', ''DHE-DSS-AES128-SHA256'', ''DHE-RSA-AES128-SHA256'',
    ''ECDH-ECDSA-AES128-SHA'', ''ECDHE-ECDSA-AES128-SHA'', ''ECDH-RSA-AES128-SHA'',
    ''ECDHE-RSA-AES128-SHA'', ''AECDH-AES128-SHA'', ''ECDHE-ECDSA-AES128-SHA256'',
    ''ECDH-ECDSA-AES128-SHA256'', ''ECDHE-RSA-AES128-SHA256'',
    ''ECDH-RSA-AES128-SHA256'', ''ADH-AES128-SHA256'', ''PSK-AES128-CBC-SHA'',
    ''DHE-PSK-AES128-CBC-SHA'', ''RSA-PSK-AES128-CBC-SHA'', ''PSK-AES128-CBC-SHA256'',
    ''DHE-PSK-AES128-CBC-SHA256'', ''RSA-PSK-AES128-CBC-SHA256'',
    ''ECDHE-PSK-AES128-CBC-SHA'', ''ECDHE-PSK-AES128-CBC-SHA256'', ''AES128-CCM'',
    ''AES128-CCM8'', ''PSK-AES128-CCM'', ''PSK-AES128-CCM8'', ''AES128-GCM-SHA256'',
    ''DH-RSA-AES128-GCM-SHA256'', ''DH-DSS-AES128-GCM-SHA256'',
    ''ADH-AES128-GCM-SHA256'', ''PSK-AES128-GCM-SHA256'', ''RSA-PSK-AES128-GCM-SHA256'',
    ''ECDH-ECDSA-AES128-GCM-SHA256'', ''ECDH-RSA-AES128-GCM-SHA256'',
    ''SRP-AES-128-CBC-SHA'', ''SRP-RSA-AES-128-CBC-SHA'', ''SRP-DSS-AES-128-CBC-SHA'',
    ''AES256-SHA'', ''DH-DSS-AES256-SHA'', ''DH-RSA-AES256-SHA'', ''DHE-DSS-AES256-SHA'',
    ''DHE-RSA-AES256-SHA'', ''ADH-AES256-SHA'', ''AES256-SHA256'',
    ''DH-DSS-AES256-SHA256'', ''DH-RSA-AES256-SHA256'', ''DHE-DSS-AES256-SHA256'',
    ''DHE-RSA-AES256-SHA256'', ''ADH-AES256-SHA256'', ''ECDH-ECDSA-AES256-SHA'',
    ''ECDHE-ECDSA-AES256-SHA'', ''ECDH-RSA-AES256-SHA'', ''ECDHE-RSA-AES256-SHA'',
    ''AECDH-AES256-SHA'', ''ECDHE-ECDSA-AES256-SHA384'', ''ECDH-ECDSA-AES256-SHA384'',
    ''ECDHE-RSA-AES256-SHA384'', ''ECDH-RSA-AES256-SHA384'', ''PSK-AES256-CBC-SHA'',
    ''DHE-PSK-AES256-CBC-SHA'', ''RSA-PSK-AES256-CBC-SHA'', ''PSK-AES256-CBC-SHA384'',
    ''DHE-PSK-AES256-CBC-SHA384'', ''RSA-PSK-AES256-CBC-SHA384'',
    ''ECDHE-PSK-AES256-CBC-SHA'', ''ECDHE-PSK-AES256-CBC-SHA384'',
    ''SRP-AES-256-CBC-SHA'', ''SRP-RSA-AES-256-CBC-SHA'', ''SRP-DSS-AES-256-CBC-SHA'',
    ''AES256-CCM'', ''AES256-CCM8'', ''PSK-AES256-CCM'', ''PSK-AES256-CCM8'',
    ''AES256-GCM-SHA384'', ''DH-RSA-AES256-GCM-SHA384'', ''DH-DSS-AES256-GCM-SHA384'',
    ''ADH-AES256-GCM-SHA384'', ''PSK-AES256-GCM-SHA384'', ''RSA-PSK-AES256-GCM-SHA384'',
    ''ECDH-ECDSA-AES256-GCM-SHA384'', ''ECDH-RSA-AES256-GCM-SHA384'',
    ''CAMELLIA128-SHA'', ''DH-DSS-CAMELLIA128-SHA'', ''DH-RSA-CAMELLIA128-SHA'',
    ''DHE-DSS-CAMELLIA128-SHA'', ''DHE-RSA-CAMELLIA128-SHA'', ''ADH-CAMELLIA128-SHA'',
    ''ECDHE-ECDSA-CAMELLIA128-SHA256'', ''ECDH-ECDSA-CAMELLIA128-SHA256'',
    ''ECDHE-RSA-CAMELLIA128-SHA256'', ''ECDH-RSA-CAMELLIA128-SHA256'',
    ''PSK-CAMELLIA128-SHA256'', ''DHE-PSK-CAMELLIA128-SHA256'',
    ''RSA-PSK-CAMELLIA128-SHA256'', ''ECDHE-PSK-CAMELLIA128-SHA256'',
    ''CAMELLIA128-GCM-SHA256'', ''DH-RSA-CAMELLIA128-GCM-SHA256'',
    ''DH-DSS-CAMELLIA128-GCM-SHA256'', ''ADH-CAMELLIA128-GCM-SHA256'',
    ''ECDH-ECDSA-CAMELLIA128-GCM-SHA256'', ''ECDH-RSA-CAMELLIA128-GCM-SHA256'',
    ''PSK-CAMELLIA128-GCM-SHA256'', ''RSA-PSK-CAMELLIA128-GCM-SHA256'',
    ''CAMELLIA128-SHA256'', ''DH-DSS-CAMELLIA128-SHA256'', ''DH-RSA-CAMELLIA128-SHA256'',
    ''DHE-DSS-CAMELLIA128-SHA256'', ''DHE-RSA-CAMELLIA128-SHA256'',
    ''ADH-CAMELLIA128-SHA256'', ''CAMELLIA256-SHA'', ''DH-RSA-CAMELLIA256-SHA'',
    ''DH-DSS-CAMELLIA256-SHA'', ''DHE-DSS-CAMELLIA256-SHA'', ''DHE-RSA-CAMELLIA256-SHA'',
    ''ADH-CAMELLIA256-SHA'', ''ECDHE-ECDSA-CAMELLIA256-SHA384'',
    ''ECDH-ECDSA-CAMELLIA256-SHA384'', ''ECDHE-RSA-CAMELLIA256-SHA384'',
    ''ECDH-RSA-CAMELLIA256-SHA384'', ''PSK-CAMELLIA256-SHA384'',
    ''DHE-PSK-CAMELLIA256-SHA384'', ''RSA-PSK-CAMELLIA256-SHA384'',
    ''ECDHE-PSK-CAMELLIA256-SHA384'', ''CAMELLIA256-SHA256'',
    ''DH-DSS-CAMELLIA256-SHA256'', ''DH-RSA-CAMELLIA256-SHA256'',
    ''DHE-DSS-CAMELLIA256-SHA256'', ''DHE-RSA-CAMELLIA256-SHA256'',
    ''ADH-CAMELLIA256-SHA256'', ''CAMELLIA256-GCM-SHA384'',
    ''DH-RSA-CAMELLIA256-GCM-SHA384'', ''DH-DSS-CAMELLIA256-GCM-SHA384'',
    ''ADH-CAMELLIA256-GCM-SHA384'', ''ECDH-ECDSA-CAMELLIA256-GCM-SHA384'',
    ''ECDH-RSA-CAMELLIA256-GCM-SHA384'', ''PSK-CAMELLIA256-GCM-SHA384'',
    ''RSA-PSK-CAMELLIA256-GCM-SHA384'', ''ARIA128-SHA256'', ''ARIA256-SHA384'',
    ''DH-DSS-ARIA128-SHA256'', ''DH-DSS-ARIA256-SHA384'', ''DH-RSA-ARIA128-SHA256'',
    ''DH-RSA-ARIA256-SHA384'', ''DHE-DSS-ARIA128-SHA256'', ''DHE-DSS-ARIA256-SHA384'',
    ''DHE-RSA-ARIA128-SHA256'', ''DHE-RSA-ARIA256-SHA384'', ''ADH-ARIA128-SHA256'',
    ''ADH-ARIA256-SHA384'', ''ECDHE-ECDSA-ARIA128-SHA256'',
    ''ECDHE-ECDSA-ARIA256-SHA384'', ''ECDH-ECDSA-ARIA128-SHA256'',
    ''ECDH-ECDSA-ARIA256-SHA384'', ''ECDHE-RSA-ARIA128-SHA256'',
    ''ECDHE-RSA-ARIA256-SHA384'', ''ECDH-RSA-ARIA128-SHA256'',
    ''ECDH-RSA-ARIA256-SHA384'', ''ARIA128-GCM-SHA256'', ''ARIA256-GCM-SHA384'',
    ''DH-DSS-ARIA128-GCM-SHA256'', ''DH-DSS-ARIA256-GCM-SHA384'',
    ''DH-RSA-ARIA128-GCM-SHA256'', ''DH-RSA-ARIA256-GCM-SHA384'',
    ''ADH-ARIA128-GCM-SHA256'', ''ADH-ARIA256-GCM-SHA384'',
    ''ECDH-ECDSA-ARIA128-GCM-SHA256'', ''ECDH-ECDSA-ARIA256-GCM-SHA384'',
    ''ECDH-RSA-ARIA128-GCM-SHA256'', ''ECDH-RSA-ARIA256-GCM-SHA384'',
    ''PSK-ARIA128-SHA256'', ''PSK-ARIA256-SHA384'', ''DHE-PSK-ARIA128-SHA256'',
    ''DHE-PSK-ARIA256-SHA384'', ''RSA-PSK-ARIA128-SHA256'', ''RSA-PSK-ARIA256-SHA384'',
    ''ARIA128-GCM-SHA256'', ''ARIA256-GCM-SHA384'', ''RSA-PSK-ARIA128-GCM-SHA256'',
    ''RSA-PSK-ARIA256-GCM-SHA384'', ''ECDHE-PSK-ARIA128-SHA256'',
    ''ECDHE-PSK-ARIA256-SHA384'', ''SEED-SHA'', ''DH-DSS-SEED-SHA'', ''DH-RSA-SEED-SHA'',
    ''DHE-DSS-SEED-SHA'', ''DHE-RSA-SEED-SHA'', ''ADH-SEED-SHA'', ''KRB5-DES-CBC-SHA'',
    ''KRB5-DES-CBC3-SHA'', ''KRB5-IDEA-CBC-SHA'', ''KRB5-DES-CBC-MD5'',
    ''KRB5-DES-CBC3-MD5'', ''KRB5-IDEA-CBC-MD5'', ''EXP-KRB5-DES-CBC-SHA'',
    ''EXP-KRB5-DES-CBC-MD5'', ''EXP-KRB5-RC2-CBC-SHA'', ''EXP-KRB5-RC2-CBC-MD5'',
    ''DHE-DSS-CBC-SHA'', ''IDEA-CBC-SHA'', ''SSL3_CK_SCSV'', ''SSL3_CK_FALLBACK_SCSV''
  ]"

definition cipher_init :: "string \<rightharpoonup> string" where
  "cipher_init = fold (\<lambda>name hash. hash(name \<mapsto> ''rfc7540'')) RFC7540_names Map.empty"

definition cipher_is_blacklisted :: "h2_globals \<Rightarrow> string \<Rightarrow> bool \<times> string option" where
  "cipher_is_blacklisted g cipher =
     (let psource = BLCNames g cipher in (psource \<noteq> None, psource))"

definition h2_h2_init :: "optional_fns \<Rightarrow> h2_globals" where
  "h2_h2_init fns =
     \<lparr> opt_ssl_engine_disable = reg_ssl_engine_disable fns,
       opt_ssl_is_https = reg_ssl_is_https fns,
       opt_ssl_var_lookup = reg_ssl_var_lookup fns,
       BLCNames = cipher_init \<rparr>"

definition h2_h2_is_tls :: "h2_globals \<Rightarrow> conn_rec \<Rightarrow> bool" where
  "h2_h2_is_tls g c =
     (case opt_ssl_is_https g of None \<Rightarrow> False | Some f \<Rightarrow> f c \<noteq> 0)"

text \<open>\<open>val && *val\<close>: the lookup gave a string and the string is not empty.\<close>

definition var_available :: "string option \<Rightarrow> bool" where
  "var_available val = (case val of None \<Rightarrow> False | Some v \<Rightarrow> v \<noteq> [])"

text \<open>
  The result is the C return value (1 compliant, 0 not) together with the names of
  the SSL variables that were looked up, in order.
\<close>

definition h2_is_security_compliant ::
  "h2_globals \<Rightarrow> conn_rec \<Rightarrow> int \<Rightarrow> int \<times> string list" where
  "h2_is_security_compliant g c require_all =
     (let is_tls = h2_h2_is_tls g c;
          cfg = conn_cfg c
      in if is_tls \<and> h2_compliance cfg > 0 then
           (case opt_ssl_var_lookup g of
              None \<Rightarrow> (0, [])
            | Some lookup \<Rightarrow>
                (let val = lookup c ''SSL_PROTOCOL'' in
                 if var_available val
                    \<and> (take 3 (the val) \<noteq> ''TLS'' \<or> the val = ''TLSv1'' \<or> the val = ''TLSv1.1'')
                 then (0, [''SSL_PROTOCOL''])
                 else if \<not> var_available val \<and> require_all \<noteq> 0
                 then (0, [''SSL_PROTOCOL''])
                 else
                   (let val = lookup c ''SSL_CIPHER'' in
                    if var_available val \<and> fst (cipher_is_blacklisted g (the val))
                    then (0, [''SSL_PROTOCOL'', ''SSL_CIPHER''])
                    else if \<not> var_available val \<and> require_all \<noteq> 0
                    then (0, [''SSL_PROTOCOL'', ''SSL_CIPHER''])
                    else (1, [''SSL_PROTOCOL'', ''SSL_CIPHER'']))))
         else (1, []))"

section \<open>modules/http2/h2\_h2.c: sniffing the connection preface\<close>

definition h2_tls_protos :: "string list" where "h2_tls_protos = [''h2'']"
definition h2_clear_protos :: "string list" where "h2_clear_protos = [''h2c'']"

definition H2_MAGIC_TOKEN :: string where
  "H2_MAGIC_TOKEN =
     ''PRI * HTTP/2.0'' @ [CHR 0x0D, CHR 0x0A, CHR 0x0D, CHR 0x0A] @ ''SM''
     @ [CHR 0x0D, CHR 0x0A, CHR 0x0D, CHR 0x0A]"

definition AP_PROTOCOL_HTTP1 :: string where "AP_PROTOCOL_HTTP1 = ''http/1.1''"

text \<open>
  Modelled from the spec: the accessors of \<open>h2_ctx\<close> (\<open>h2_ctx.c\<close> is not among the
  sources). A connection flagged as a per-stream pseudo-connection is a task; the
  protocol is unset until one is selected; a connection is active, and handed to the
  protocol engine, once a protocol has been selected.
\<close>

definition h2_ctx_is_task :: "h2_ctx \<Rightarrow> bool" where
  "h2_ctx_is_task ctx = ctx_task ctx"

definition h2_ctx_protocol_get :: "conn_rec \<Rightarrow> string option" where
  "h2_ctx_protocol_get c = ctx_protocol (conn_ctx c)"

definition h2_ctx_protocol_set :: "h2_ctx \<Rightarrow> string \<Rightarrow> h2_ctx" where
  "h2_ctx_protocol_set ctx proto = ctx\<lparr>ctx_protocol := Some proto\<rparr>"

definition h2_ctx_is_active :: "h2_ctx \<Rightarrow> bool" where
  "h2_ctx_is_active ctx = (ctx_protocol ctx \<noteq> None)"

text \<open>
  The input filters are the environment: the zero-length \<open>AP_MODE_INIT\<close> read returns
  a status and may change the connection (the TLS handshake can select a protocol); the
  \<open>AP_MODE_SPECULATIVE\<close> read of at most \<open>n\<close> bytes returns a status and the bytes
  it peeked, and leaves the connection as it is. \<open>h2_conn_main\<close> is the protocol
  engine, a parameter.
\<close>

record sniff_env =
  get_brigade_init :: "conn_rec \<Rightarrow> apr_status_t \<times> conn_rec"
  get_brigade_speculative :: "conn_rec \<Rightarrow> nat \<Rightarrow> apr_status_t \<times> string"

definition h2_h2_process_conn ::
  "h2_globals \<Rightarrow> sniff_env \<Rightarrow> (conn_rec \<Rightarrow> int) \<Rightarrow> conn_rec \<Rightarrow> int \<times> conn_rec" where
  "h2_h2_process_conn g env h2_conn_main c =
     (let cfg = conn_cfg c;
          is_tls = h2_h2_is_tls g c
      in if h2_ctx_is_task (conn_ctx c) then (DECLINED, c)
         else
           (let c' =
              (if h2_ctx_protocol_get c = None \<and> conn_protocol c = AP_PROTOCOL_HTTP1 then
                 (case (if is_tls then get_brigade_init env c else (APR_SUCCESS, c)) of
                    (status, c1) \<Rightarrow>
                      if status = APR_SUCCESS then
                        (if h2_ctx_protocol_get c1 \<noteq> None
                            \<or> conn_protocol c1 \<noteq> AP_PROTOCOL_HTTP1
                         then c1
                         else if h2_direct cfg > 0 then
                           (case get_brigade_speculative env c1 24 of
                              (status, s) \<Rightarrow>
                                if status = APR_SUCCESS then
                                  (if length s \<ge> 24 \<and> take 24 H2_MAGIC_TOKEN = take 24 s
                                   then c1\<lparr>conn_ctx :=
                                          h2_ctx_protocol_set (conn_ctx c1)
                                            (if is_tls then ''h2'' else ''h2c'')\<rparr>
                                   else c1)
                                else c1)
                         else c1)
                      else c1)
               else c)
            in if h2_ctx_is_active (conn_ctx c') then (h2_conn_main c', c')
               else (DECLINED, c')))"

text \<open>
  The states of the sniffer as the specification names them, read off the result:
  a connection handed to the engine with a protocol selected, or declined.
\<close>

datatype sniff_result = Detected string | Declined

definition sniff_outcome :: "int \<times> conn_rec \<Rightarrow> (conn_rec \<Rightarrow> int) \<Rightarrow> sniff_result" where
  "sniff_outcome r h2_conn_main =
     (case r of (rv, c') \<Rightarrow>
        (case h2_ctx_protocol_get c' of
           Some p \<Rightarrow> if rv = h2_conn_main c' then Detected p else Declined
         | None \<Rightarrow> Declined))"

section \<open>modules/http2/h2\_conn\_io.c: the channel\<close>

definition WRITE_BUFFER_SIZE :: nat where "WRITE_BUFFER_SIZE = 64 * 1024"
definition WRITE_SIZE_INITIAL :: nat where "WRITE_SIZE_INITIAL = 1300"
definition WRITE_SIZE_MAX :: nat where "WRITE_SIZE_MAX = 16 * 1024"
definition WRITE_SIZE_IDLE_USEC :: int where "WRITE_SIZE_IDLE_USEC = 1 * 1000000"
definition WRITE_SIZE_THRESHOLD :: nat where "WRITE_SIZE_THRESHOLD = 1 * 1024 * 1024"

text \<open>
  \<open>apr_size_t\<close> is an unsigned 64-bit integer, modelled as a \<open>nat\<close> with the
  wrap-around written out where the C code adds or subtracts.
\<close>

definition size_wrap :: "nat \<Rightarrow> nat" where
  "size_wrap n = n mod 2 ^ 64"

definition size_sub :: "nat \<Rightarrow> nat \<Rightarrow> nat" where
  "size_sub a b = (a + 2 ^ 64 - b mod 2 ^ 64) mod 2 ^ 64"

text \<open>
  Buckets. An input bucket holds bytes, is metadata, or fails to be read. An output
  bucket is a heap bucket with its own bytes, a transient bucket that refers to
  \<open>length\<close> bytes of \<open>io->buffer\<close> from \<open>offset\<close> on, a transient bucket that refers
  to the bytes of the caller of \<open>apr_brigade_write\<close>, or a flush bucket.
\<close>

datatype in_bucket = Data string | Metadata | Unreadable apr_status_t

datatype out_bucket = Heap string | Transient nat nat | Transient_of string | Flush

record h2_conn_io =
  io_input :: "in_bucket list"
  io_output :: "out_bucket list"
  buffer :: string
  buflen :: nat
  bufsize :: nat
  write_size :: nat
  last_write :: int
  bytes_written :: nat
  buffer_output :: bool
  unflushed :: bool

text \<open>
  The environment of a channel: every call of \<open>apr_time_now\<close>, \<open>ap_pass_brigade\<close>
  and \<open>ap_get_brigade\<close> is answered by the environment, which may answer each call
  differently; \<open>calls\<close> counts them. What reaches the
  output filters, and the two trace messages about the write size, are recorded in
  \<open>trace\<close>:
  \<^item> \<open>Passed t bs\<close>: \<open>ap_pass_brigade\<close> succeeded with the buckets \<open>bs\<close>, and
    \<open>apr_time_now\<close> then read \<open>t\<close>;
  \<^item> \<open>PassFailed st\<close>: \<open>ap_pass_brigade\<close> returned \<open>st\<close>;
  \<^item> \<open>WriteSizeReset t n\<close>: "timeout write size reset to \<open>n\<close>", with the clock
    reading \<open>t\<close> that led to it;
  \<^item> \<open>WriteSizeMax n\<close>: "threshold reached, write size now \<open>n\<close>".
\<close>

datatype apr_read_type_e = APR_BLOCK_READ | APR_NONBLOCK_READ

datatype wire_bucket = Bytes string | FlushMark

datatype io_event =
    Passed int "wire_bucket list"
  | PassFailed apr_status_t
  | WriteSizeReset int nat
  | WriteSizeMax nat

record io_env =
  time_now :: "nat \<Rightarrow> int"
  pass_brigade :: "nat \<Rightarrow> apr_status_t"
  get_brigade :: "nat \<Rightarrow> apr_read_type_e \<Rightarrow> apr_status_t \<times> in_bucket list"

record io_world =
  calls :: nat
  trace :: "io_event list"

text \<open>
  Modelled from the spec: the struct as its owner hands it to \<open>h2_conn_io_init\<close>.
  The owner is not part of the sources at hand; the struct is a member of the session,
  which is allocated zero-filled, and the counter of bytes written starts at zero.
  \<open>h2_conn_io_init\<close> itself does not assign \<open>bytes_written\<close> and \<open>unflushed\<close>.
\<close>

definition h2_conn_io_zero :: h2_conn_io where
  "h2_conn_io_zero =
     \<lparr> io_input = [], io_output = [], buffer = [], buflen = 0, bufsize = 0, write_size = 0,
       last_write = 0, bytes_written = 0, buffer_output = False, unflushed = False \<rparr>"

definition h2_conn_io_init :: "h2_globals \<Rightarrow> h2_conn_io \<Rightarrow> conn_rec \<Rightarrow> h2_conn_io" where
  "h2_conn_io_init g io c =
     (let io1 = io\<lparr>io_input := [], io_output := [], buflen := 0,
                    write_size := WRITE_SIZE_INITIAL, last_write := 0,
                    buffer_output := h2_h2_is_tls g c\<rparr>
      in if buffer_output io1
         then io1\<lparr>bufsize := WRITE_BUFFER_SIZE, buffer := replicate WRITE_BUFFER_SIZE (CHR 0x00)\<rparr>
         else io1\<lparr>bufsize := 0\<rparr>)"

definition bucket_length :: "out_bucket \<Rightarrow> nat" where
  "bucket_length b =
     (case b of Heap s \<Rightarrow> length s | Transient off len \<Rightarrow> len
      | Transient_of s \<Rightarrow> length s | Flush \<Rightarrow> 0)"

definition brigade_length :: "out_bucket list \<Rightarrow> nat" where
  "brigade_length bb = sum_list (map bucket_length bb)"

text \<open>What the output filters see of a bucket when the brigade is passed to them.\<close>

definition on_wire :: "string \<Rightarrow> out_bucket \<Rightarrow> wire_bucket" where
  "on_wire buf b =
     (case b of Heap s \<Rightarrow> Bytes s
      | Transient off len \<Rightarrow> Bytes (take len (drop off buf))
      | Transient_of s \<Rightarrow> Bytes s
      | Flush \<Rightarrow> FlushMark)"

text \<open>
  \<open>flush_out\<close> is always called on \<open>io->output\<close>. The length of a brigade of heap,
  transient and flush buckets is known without reading, so \<open>apr_brigade_length\<close>
  succeeds.
\<close>

definition flush_out :: "io_env \<Rightarrow> h2_conn_io \<Rightarrow> io_world \<Rightarrow> apr_status_t \<times> h2_conn_io \<times> io_world" where
  "flush_out env io w =
     (let bblen = brigade_length (io_output io);
          status = pass_brigade env (calls w);
          w1 = w\<lparr>calls := calls w + 1\<rparr>
      in if status = APR_SUCCESS then
           (let t = time_now env (calls w1);
                w2 = w1\<lparr>calls := calls w1 + 1,
                         trace := trace w1 @ [Passed t (map (on_wire (buffer io)) (io_output io))]\<rparr>
            in (status,
                io\<lparr>bytes_written := size_wrap (bytes_written io + bblen),
                    last_write := t, io_output := []\<rparr>,
                w2))
         else (status, io\<lparr>io_output := []\<rparr>, w1\<lparr>trace := trace w1 @ [PassFailed status]\<rparr>))"

text \<open>The \<open>for\<close> loop of \<open>bucketeer_buffer\<close>: \<open>bcount\<close> buckets of \<open>write_size\<close> bytes.\<close>

fun bucketeer_chunks :: "nat \<Rightarrow> nat \<Rightarrow> nat \<Rightarrow> out_bucket list" where
  "bucketeer_chunks 0 data ws = []"
| "bucketeer_chunks (Suc n) data ws = Transient data ws # bucketeer_chunks n (data + ws) ws"

text \<open>
  The first part of \<open>bucketeer_buffer\<close>: the write size is tuned. The clock is read
  only when \<open>write_size > WRITE_SIZE_INITIAL\<close> (the \<open>&&\<close> does not evaluate its right
  side otherwise).
\<close>

definition tune_write_size :: "io_env \<Rightarrow> h2_conn_io \<Rightarrow> io_world \<Rightarrow> h2_conn_io \<times> io_world" where
  "tune_write_size env io w =
     (let reads_clock = (write_size io > WRITE_SIZE_INITIAL);
          t = time_now env (calls w);
          w1 = (if reads_clock then w\<lparr>calls := calls w + 1\<rparr> else w)
      in if reads_clock \<and> t - last_write io \<ge> WRITE_SIZE_IDLE_USEC
         then (io\<lparr>write_size := WRITE_SIZE_INITIAL, bytes_written := 0\<rparr>,
               w1\<lparr>trace := trace w1 @ [WriteSizeReset t WRITE_SIZE_INITIAL]\<rparr>)
         else if write_size io < WRITE_SIZE_MAX \<and> bytes_written io \<ge> WRITE_SIZE_THRESHOLD
         then (io\<lparr>write_size := WRITE_SIZE_MAX\<rparr>,
               w1\<lparr>trace := trace w1 @ [WriteSizeMax WRITE_SIZE_MAX]\<rparr>)
         else (io, w1))"

text \<open>
  \<open>bucketeer_buffer\<close>: after the tuning, the staged bytes are cut into buckets. A
  \<open>write_size\<close> of 0 is a division by zero: \<open>None\<close>. \<open>bcount\<close> is an \<open>int\<close>: a
  quotient of \<open>2^31\<close> or more does not fit, and a negative \<open>bcount\<close> runs the loop
  zero times.
\<close>

definition bucketeer_buffer :: "io_env \<Rightarrow> h2_conn_io \<Rightarrow> io_world \<Rightarrow> (h2_conn_io \<times> io_world) option" where
  "bucketeer_buffer env io w =
     (let remaining = buflen io in
      case tune_write_size env io w of
        (io1, w1) \<Rightarrow>
          if write_size io1 = 0 then None
          else
            (let q = (remaining div write_size io1) mod 2 ^ 32;
                 bcount = (if q < 2 ^ 31 then q else 0);
                 chunks = bucketeer_chunks bcount 0 (write_size io1);
                 remaining' = remaining - bcount * write_size io1;
                 rest = (if remaining' > 0 then [Transient (bcount * write_size io1) remaining']
                         else [])
             in Some (io1\<lparr>io_output := io_output io1 @ chunks @ rest\<rparr>, w1)))"

text \<open>
  \<open>memcpy(dst + off, src, n)\<close>; copying past the end of \<open>dst\<close> or reading past the
  end of \<open>src\<close> is \<open>None\<close>.
\<close>

definition memcpy :: "string \<Rightarrow> nat \<Rightarrow> string \<Rightarrow> nat \<Rightarrow> string option" where
  "memcpy dst off src n =
     (if off + n \<le> length dst \<and> n \<le> length src
      then Some (take off dst @ take n src @ drop (off + n) dst)
      else None)"

text \<open>The \<open>while\<close> loop of \<open>h2_conn_io_write\<close> on a buffering channel.\<close>

partial_function (option) write_buffered ::
  "io_env \<Rightarrow> h2_conn_io \<Rightarrow> io_world \<Rightarrow> string \<Rightarrow> apr_status_t
     \<Rightarrow> (apr_status_t \<times> h2_conn_io \<times> io_world) option" where
  "write_buffered env io w buf status =
     (if length buf > 0 \<and> status = APR_SUCCESS then
        (let avail = size_sub (bufsize io) (buflen io) in
         if avail \<le> 0 then
           (case bucketeer_buffer env io w of
              None \<Rightarrow> None
            | Some (io1, w1) \<Rightarrow>
                (case flush_out env io1 w1 of
                   (status', io2, w2) \<Rightarrow> write_buffered env (io2\<lparr>buflen := 0\<rparr>) w2 buf status'))
         else if length buf > avail then
           (case memcpy (buffer io) (buflen io) buf avail of
              None \<Rightarrow> None
            | Some b \<Rightarrow>
                write_buffered env (io\<lparr>buffer := b, buflen := size_wrap (buflen io + avail)\<rparr>) w
                  (drop avail buf) status)
         else
           (case memcpy (buffer io) (buflen io) buf (length buf) of
              None \<Rightarrow> None
            | Some b \<Rightarrow>
                Some (status, io\<lparr>buffer := b, buflen := size_wrap (buflen io + length buf)\<rparr>, w)))
      else Some (status, io, w))"

declare write_buffered.simps [code]

text \<open>
  \<open>apr_brigade_write\<close> belongs to APR (\<open>apr_brigade.c\<close>); it is called with
  \<open>flush_out\<close> as its flush callback. A heap bucket that it creates has a buffer of
  \<open>APR_BUCKET_BUFF_SIZE\<close> bytes, and no other heap bucket gets into \<open>io->output\<close>;
  the buffers are not shared. When the last bucket of the brigade is a heap bucket,
  the room left in its buffer is what remains; otherwise a whole buffer remains. Bytes
  that do not fit go into a transient bucket that refers to the caller's bytes, and
  the brigade is handed to the flush callback at once. Bytes that fit are copied into
  the last heap bucket, or into a new one appended to the brigade.
\<close>

definition APR_BUCKET_BUFF_SIZE :: nat where "APR_BUCKET_BUFF_SIZE = 8000"

definition heap_tail :: "out_bucket list \<Rightarrow> string option" where
  "heap_tail bb =
     (if bb = [] then None
      else (case last bb of Heap s \<Rightarrow> Some s | Transient off len \<Rightarrow> None
            | Transient_of s \<Rightarrow> None | Flush \<Rightarrow> None))"

definition apr_brigade_write ::
  "io_env \<Rightarrow> h2_conn_io \<Rightarrow> io_world \<Rightarrow> string \<Rightarrow> apr_status_t \<times> h2_conn_io \<times> io_world" where
  "apr_brigade_write env io w str =
     (let bb = io_output io;
          nbyte = length str;
          remaining = (case heap_tail bb of
                         None \<Rightarrow> APR_BUCKET_BUFF_SIZE
                       | Some s \<Rightarrow> APR_BUCKET_BUFF_SIZE - length s)
      in if nbyte > remaining
         then flush_out env (io\<lparr>io_output := bb @ [Transient_of str]\<rparr>) w
         else (case heap_tail bb of
                 None \<Rightarrow> (APR_SUCCESS, io\<lparr>io_output := bb @ [Heap str]\<rparr>, w)
               | Some s \<Rightarrow>
                   (APR_SUCCESS, io\<lparr>io_output := butlast bb @ [Heap (s @ str)]\<rparr>, w)))"

text \<open>A transport that accepts every brigade passed to it.\<close>

definition transport_accepts :: "io_env \<Rightarrow> bool" where
  "transport_accepts env = (\<forall>n. pass_brigade env n = APR_SUCCESS)"

definition h2_conn_io_write ::
  "io_env \<Rightarrow> h2_conn_io \<Rightarrow> io_world \<Rightarrow> string
     \<Rightarrow> (apr_status_t \<times> h2_conn_io \<times> io_world) option" where
  "h2_conn_io_write env io w buf =
     (let io1 = io\<lparr>unflushed := True\<rparr>
      in if buffer_output io1 then write_buffered env io1 w buf APR_SUCCESS
         else Some (apr_brigade_write env io1 w buf))"

definition h2_conn_io_flush ::
  "io_env \<Rightarrow> h2_conn_io \<Rightarrow> io_world \<Rightarrow> (apr_status_t \<times> h2_conn_io \<times> io_world) option" where
  "h2_conn_io_flush env io w =
     (if unflushed io then
        (case (if buflen io > 0
               then map_option (\<lambda>(io1, w1). (io1\<lparr>buflen := 0\<rparr>, w1)) (bucketeer_buffer env io w)
               else Some (io, w)) of
           None \<Rightarrow> None
         | Some (io1, w1) \<Rightarrow>
             (case flush_out env (io1\<lparr>io_output := io_output io1 @ [Flush]\<rparr>) w1 of
                (status, io2, w2) \<Rightarrow>
                  if status = APR_SUCCESS then Some (status, io2\<lparr>unflushed := False\<rparr>, w2)
                  else Some (status, io2, w2)))
      else Some (APR_SUCCESS, io, w))"

text \<open>
  Reading. The consumer callback \<open>on_read_cb\<close> gets its own state \<open>puser\<close> and a
  span of bytes, and returns a status, the number of bytes it consumed, whether it is
  done, and its new state. The buckets of the input brigade are in memory:
  \<open>apr_bucket_read\<close> returns the bytes of a data bucket, and \<open>apr_bucket_split\<close>
  within a data bucket succeeds.
\<close>

type_synonym 'u on_read_cb = "'u \<Rightarrow> string \<Rightarrow> apr_status_t \<times> nat \<times> bool \<times> 'u"

text \<open>
  The \<open>while\<close> loop of \<open>h2_conn_io_bucket_read\<close>; its state is the input brigade,
  \<open>status\<close>, \<open>*pdone\<close>, \<open>readlen\<close> and the consumer's state. The bucket at the head
  is deleted at the end of every iteration; after a split that is the consumed part.
\<close>

partial_function (option) bucket_read_loop ::
  "'u on_read_cb \<Rightarrow> in_bucket list \<times> apr_status_t \<times> bool \<times> nat \<times> 'u
     \<Rightarrow> (in_bucket list \<times> apr_status_t \<times> bool \<times> nat \<times> 'u) option" where
  "bucket_read_loop cb s =
     (case s of (inp, status, pdone, readlen, u) \<Rightarrow>
        if status = APR_SUCCESS \<and> \<not> pdone \<and> inp \<noteq> [] then
          (case hd inp of
             Metadata \<Rightarrow> bucket_read_loop cb (tl inp, status, pdone, readlen, u)
           | Unreadable st \<Rightarrow> bucket_read_loop cb (tl inp, st, pdone, readlen, u)
           | Data bucket_data \<Rightarrow>
               if length bucket_data > 0 then
                 (case cb u bucket_data of
                    (st, consumed, pdone', u') \<Rightarrow>
                      if st = APR_SUCCESS \<and> length bucket_data > consumed
                      then bucket_read_loop cb
                             (Data (drop consumed bucket_data) # tl inp, APR_SUCCESS, pdone',
                              size_wrap (readlen + consumed), u')
                      else bucket_read_loop cb
                             (tl inp, st, pdone', size_wrap (readlen + consumed), u'))
               else bucket_read_loop cb (tl inp, status, pdone, readlen, u))
        else Some s)"

declare bucket_read_loop.simps [code]

definition h2_conn_io_bucket_read ::
  "'u on_read_cb \<Rightarrow> apr_read_type_e \<Rightarrow> h2_conn_io \<Rightarrow> 'u
     \<Rightarrow> (apr_status_t \<times> bool \<times> h2_conn_io \<times> 'u) option" where
  "h2_conn_io_bucket_read cb block io u =
     (case bucket_read_loop cb (io_input io, APR_SUCCESS, False, 0, u) of
        None \<Rightarrow> None
      | Some (inp, status, pdone, readlen, u') \<Rightarrow>
          Some (if readlen = 0 \<and> status = APR_SUCCESS \<and> block = APR_NONBLOCK_READ
                then APR_EAGAIN else status,
                pdone, io\<lparr>io_input := inp\<rparr>, u'))"

text \<open>
  \<open>h2_conn_io_read\<close>. The first part serves the caller from what is staged and
  returns early (\<open>Inl\<close>) on an error or when the consumer is done; otherwise the
  brigade is cleaned up and more is asked of the input filters. The scoreboard updates
  and the log calls are left out.
\<close>

definition h2_conn_io_read ::
  "io_env \<Rightarrow> h2_conn_io \<Rightarrow> io_world \<Rightarrow> apr_read_type_e \<Rightarrow> 'u on_read_cb \<Rightarrow> 'u
     \<Rightarrow> (apr_status_t \<times> h2_conn_io \<times> io_world \<times> 'u) option" where
  "h2_conn_io_read env io w block cb u =
     (case (if io_input io \<noteq> [] then
              (case h2_conn_io_bucket_read cb block io u of
                 None \<Rightarrow> None
               | Some (status, done, io1, u1) \<Rightarrow>
                   if status \<noteq> APR_SUCCESS \<or> done then Some (Inl (status, io1, w, u1))
                   else Some (Inr (io1\<lparr>io_input := []\<rparr>, u1)))
            else Some (Inr (io, u))) of
        None \<Rightarrow> None
      | Some (Inl r) \<Rightarrow> Some r
      | Some (Inr (io2, u2)) \<Rightarrow>
          (case get_brigade env (calls w) block of
             (status, bb) \<Rightarrow>
               (let io3 = io2\<lparr>io_input := io_input io2 @ bb\<rparr>;
                    w3 = w\<lparr>calls := calls w + 1\<rparr>
                in if status = APR_SUCCESS then
                     (case h2_conn_io_bucket_read cb block io3 u2 of
                        None \<Rightarrow> None
                      | Some (st, done, io4, u4) \<Rightarrow> Some (st, io4, w3, u4))
                   else Some (status, io3, w3, u2))))"

text \<open>
  A consumer that keeps a record of its calls: what it was handed and what it answered.
\<close>

type_synonym read_entry = "string \<times> apr_status_t \<times> nat \<times> bool"

definition logged :: "'u on_read_cb \<Rightarrow> (read_entry list \<times> 'u) on_read_cb" where
  "logged cb lu s =
     (case cb (snd lu) s of
        (st, consumed, pdone, u') \<Rightarrow> (st, consumed, pdone, (fst lu @ [(s, st, consumed, pdone)], u')))"




text \<open>The bytes that have reached the output filters, in order.\<close>

definition wire_bytes_of :: "wire_bucket \<Rightarrow> string" where
  "wire_bytes_of b = (case b of Bytes s \<Rightarrow> s | FlushMark \<Rightarrow> [])"

definition event_bytes :: "io_event \<Rightarrow> string" where
  "event_bytes e =
     (case e of Passed t bs \<Rightarrow> concat (map wire_bytes_of bs)
      | PassFailed st \<Rightarrow> [] | WriteSizeReset t n \<Rightarrow> [] | WriteSizeMax n \<Rightarrow> [])"

definition wire_bytes :: "io_event list \<Rightarrow> string" where
  "wire_bytes tr = concat (map event_bytes tr)"

text \<open>
  The bytes of a brigade as the output filters would see them, and the bytes a channel
  holds that have not been passed on: those of its output brigade and the staged part
  of its buffer.
\<close>

definition chunk_bytes :: "string \<Rightarrow> out_bucket list \<Rightarrow> string" where
  "chunk_bytes buf bb = concat (map (\<lambda>b. wire_bytes_of (on_wire buf b)) bb)"

definition pending :: "h2_conn_io \<Rightarrow> string" where
  "pending io = chunk_bytes (buffer io) (io_output io) @ take (buflen io) (buffer io)"

definition is_heap :: "out_bucket \<Rightarrow> bool" where
  "is_heap b =
     (case b of Heap s \<Rightarrow> True | Transient off len \<Rightarrow> False
      | Transient_of s \<Rightarrow> False | Flush \<Rightarrow> False)"

text \<open>
  The shape of a channel between two calls: on a buffering channel the buffer has its
  full size, \<open>buflen\<close> is within it and the output brigade is empty; on the other the
  buffer is not used and the brigade holds heap buckets; a channel that is not marked
  unflushed holds no bytes.
\<close>

definition chan_ok :: "h2_conn_io \<Rightarrow> bool" where
  "chan_ok io =
     ((write_size io = WRITE_SIZE_INITIAL \<or> write_size io = WRITE_SIZE_MAX)
      \<and> (if buffer_output io
          then bufsize io = WRITE_BUFFER_SIZE \<and> length (buffer io) = bufsize io
               \<and> buflen io \<le> bufsize io \<and> io_output io = []
          else buflen io = 0 \<and> list_all is_heap (io_output io))
      \<and> (unflushed io \<or> (buflen io = 0 \<and> io_output io = [])))"

text \<open>
  A monitor for the write size, run over a trace. Its state is the write size, the
  number of bytes passed on since the last reset, and the clock reading of the last
  successful pass. It starts at 1300 bytes and accepts
  \<^item> a reset only to 1300, from a larger size, and only when the clock reading that led
    to it is at least one second after the last successful pass;
  \<^item> a growth only to 16384, from a smaller size, and only when at least 1 MiB has been
    passed on since the last reset.
  Any other change of the write size makes it fail with \<open>None\<close>.
\<close>

type_synonym tune_state = "nat \<times> nat \<times> int option"

definition tune_step :: "tune_state option \<Rightarrow> io_event \<Rightarrow> tune_state option" where
  "tune_step s e =
     (case s of
        None \<Rightarrow> None
      | Some (ws, cum, lp) \<Rightarrow>
          (case e of
             Passed t bs \<Rightarrow> Some (ws, cum + length (concat (map wire_bytes_of bs)), Some t)
           | PassFailed st \<Rightarrow> Some (ws, cum, lp)
           | WriteSizeReset t n \<Rightarrow>
               (case lp of
                  None \<Rightarrow> None
                | Some tp \<Rightarrow>
                    if n = 1300 \<and> n < ws \<and> t - tp \<ge> 1000000 then Some (n, 0, lp) else None)
           | WriteSizeMax n \<Rightarrow>
               if n = 16384 \<and> ws < n \<and> cum \<ge> 1048576 then Some (n, cum, lp) else None))"

definition tune_replay :: "io_event list \<Rightarrow> tune_state option" where
  "tune_replay tr = foldl tune_step (Some (1300, 0, None)) tr"

text \<open>
  How the fields of the channel relate to the monitor: \<open>write_size\<close> is the monitor's,
  \<open>bytes_written\<close> is its byte count (as far as 64 bits hold it), and \<open>last_write\<close>
  is the clock reading of the last successful pass.
\<close>

definition tune_inv :: "h2_conn_io \<Rightarrow> io_world \<Rightarrow> bool" where
  "tune_inv io w =
     (case tune_replay (trace w) of
        None \<Rightarrow> False
      | Some (ws, cum, lp) \<Rightarrow>
          write_size io = ws \<and> bytes_written io = cum mod 2 ^ 64
          \<and> (case lp of
                None \<Rightarrow> last_write io = 0 \<and> ws = 1300 \<and> cum = 0
              | Some t \<Rightarrow> last_write io = t))"









text \<open>
  A history of a channel: any sequence of calls of \<open>h2_conn_io_write\<close>,
  \<open>h2_conn_io_flush\<close> and \<open>h2_conn_io_read\<close>, each with its own arguments. The
  result has the status of every call.
\<close>

datatype 'u io_op = DoWrite string | DoFlush | DoRead apr_read_type_e "'u on_read_cb" 'u

definition is_read :: "'u io_op \<Rightarrow> bool" where
  "is_read x = (case x of DoWrite buf \<Rightarrow> False | DoFlush \<Rightarrow> False | DoRead block cb u \<Rightarrow> True)"

definition apply_op ::
  "io_env \<Rightarrow> h2_conn_io \<Rightarrow> io_world \<Rightarrow> 'u io_op
     \<Rightarrow> (apr_status_t \<times> h2_conn_io \<times> io_world) option" where
  "apply_op env io w x =
     (case x of
        DoWrite buf \<Rightarrow> h2_conn_io_write env io w buf
      | DoFlush \<Rightarrow> h2_conn_io_flush env io w
      | DoRead block cb u \<Rightarrow>
          (case h2_conn_io_read env io w block cb u of
             None \<Rightarrow> None
           | Some (st, io', w', u') \<Rightarrow> Some (st, io', w')))"

fun run_ops ::
  "io_env \<Rightarrow> h2_conn_io \<Rightarrow> io_world \<Rightarrow> 'u io_op list
     \<Rightarrow> (apr_status_t list \<times> h2_conn_io \<times> io_world) option" where
  "run_ops env io w [] = Some ([], io, w)"
| "run_ops env io w (x # xs) =
     (case apply_op env io w x of
        None \<Rightarrow> None
      | Some (st, io', w') \<Rightarrow>
          (case run_ops env io' w' xs of
             None \<Rightarrow> None
           | Some (sts, io'', w'') \<Rightarrow> Some (st # sts, io'', w'')))"

text \<open>The bytes given to \<open>write\<close> in a history, in order.\<close>

definition op_bytes :: "'u io_op \<Rightarrow> string" where
  "op_bytes x = (case x of DoWrite buf \<Rightarrow> buf | DoFlush \<Rightarrow> [] | DoRead block cb u \<Rightarrow> [])"

definition written :: "'u io_op list \<Rightarrow> string" where
  "written xs = concat (map op_bytes xs)"

definition all_success :: "apr_status_t list \<Rightarrow> bool" where
  "all_success sts = list_all (\<lambda>st. st = APR_SUCCESS) sts"

definition world0 :: io_world where
  "world0 = \<lparr> calls = 0, trace = [] \<rparr>"

text \<open>The handshake-triggering read of \<open>h2_h2_process_conn\<close>, on its own.\<close>

definition after_init :: "h2_globals \<Rightarrow> sniff_env \<Rightarrow> conn_rec \<Rightarrow> apr_status_t \<times> conn_rec" where
  "after_init g env c = (if h2_h2_is_tls g c then get_brigade_init env c else (APR_SUCCESS, c))"

section \<open>Concrete connections and environments\<close>

definition tls_conn :: conn_rec where
  "tls_conn =
     \<lparr> conn_cfg = \<lparr> h2_direct = 1, h2_compliance = 1 \<rparr>,
       conn_ctx = \<lparr> ctx_protocol = None, ctx_task = False \<rparr>,
       conn_protocol = ''http/1.1'',
       ssl_https = 1,
       ssl_vars = (\<lambda>name. None) \<rparr>"

definition clear_conn :: conn_rec where
  "clear_conn = tls_conn\<lparr>ssl_https := 0\<rparr>"

definition preface_env :: sniff_env where
  "preface_env =
     \<lparr> get_brigade_init = (\<lambda>c. (APR_SUCCESS, c)),
       get_brigade_speculative = (\<lambda>c n. (APR_SUCCESS, take n (H2_MAGIC_TOKEN @ ''rest''))) \<rparr>"

definition mutated_env :: sniff_env where
  "mutated_env =
     \<lparr> get_brigade_init = (\<lambda>c. (APR_SUCCESS, c)),
       get_brigade_speculative =
         (\<lambda>c n. (APR_SUCCESS, take n (H2_MAGIC_TOKEN[3 := CHR ''X'']))) \<rparr>"

definition short_env :: sniff_env where
  "short_env =
     \<lparr> get_brigade_init = (\<lambda>c. (APR_SUCCESS, c)),
       get_brigade_speculative = (\<lambda>c n. (APR_SUCCESS, take 23 H2_MAGIC_TOKEN)) \<rparr>"

definition working_pipe_env :: pod_env where
  "working_pipe_env =
     \<lparr> file_write_rv = APR_SUCCESS,
       pool_create_rv = APR_SUCCESS,
       socket_create_rv = APR_SUCCESS,
       socket_timeout_set_rv = APR_SUCCESS,
       socket_connect_rv = APR_SUCCESS,
       is_timeup = (\<lambda>rv. rv = 70007),
       ap_listeners = [\<lparr> protocol = Some ''http'', bind_addr = ''127.0.0.1:80'' \<rparr>],
       server_description = ''Apache'' \<rparr>"

definition failing_pipe_env :: pod_env where
  "failing_pipe_env = working_pipe_env\<lparr>file_write_rv := APR_EGENERAL\<rparr>"

text \<open>One worker, pid 100 in slot 0, that never exits; every sleep is exact.\<close>

definition stubborn_env :: reclaim_env where
  "stubborn_env =
     \<lparr> proc_wait = (\<lambda>n pid. APR_CHILD_NOTDONE),
       sleep_overrun = (\<lambda>n. 0),
       max_daemons = 1,
       note_child_killed = (\<lambda>i sb. sb(i := 0)),
       ap_debug = False \<rparr>"

definition one_worker :: "nat \<Rightarrow> pid_t" where
  "one_worker i = (if i = 0 then 100 else 0)"

text \<open>
  With the extra processes 300 and 200: 300 is still running at the first poll, has
  exited at the second, and cannot be waited for after that; 100 and 200 never exit.
  The worker of \<open>leaving_env\<close> has exited at the third poll.
\<close>

definition mixed_env :: reclaim_env where
  "mixed_env =
     stubborn_env\<lparr>proc_wait :=
       (\<lambda>n pid. if pid = 300
                 then (if n < 3 then APR_CHILD_NOTDONE
                       else if n < 6 then APR_CHILD_DONE else APR_EGENERAL)
                 else APR_CHILD_NOTDONE)\<rparr>"

definition leaving_env :: reclaim_env where
  "leaving_env =
     stubborn_env\<lparr>proc_wait := (\<lambda>n pid. if n < 2 then APR_CHILD_NOTDONE else APR_CHILD_DONE)\<rparr>"

text \<open>A transport that always succeeds, with a clock that advances 10 ms per reading.\<close>

definition smooth_env :: io_env where
  "smooth_env =
     \<lparr> time_now = (\<lambda>n. 1000000000 + int n * 10000),
       pass_brigade = (\<lambda>n. APR_SUCCESS),
       get_brigade = (\<lambda>n block. (APR_EOF, [])) \<rparr>"






text \<open>A short history without reads.\<close>

definition small_talk :: "unit io_op list" where
  "small_talk = [DoWrite ''abc'', DoFlush, DoWrite ''de'', DoWrite ''f'']"

text \<open>
  A channel on a cleartext connection and one on an encrypted connection, as
  \<open>h2_conn_io_init\<close> leaves them.
\<close>

definition clear_io :: h2_conn_io where
  "clear_io = h2_conn_io_init (h2_h2_init mod_ssl_fns) h2_conn_io_zero clear_conn"

definition tls_io :: h2_conn_io where
  "tls_io = h2_conn_io_init (h2_h2_init mod_ssl_fns) h2_conn_io_zero tls_conn"

text \<open>A transport that fails the first brigade passed to it and accepts the others.\<close>

definition flaky_env :: io_env where
  "flaky_env = smooth_env\<lparr>pass_brigade := (\<lambda>n. if n = 0 then APR_EGENERAL else APR_SUCCESS)\<rparr>"

definition lost_talk :: "unit io_op list" where
  "lost_talk = [DoWrite ''abc'', DoFlush, DoFlush, DoWrite ''def'']"

text \<open>
  A busy connection that falls idle: 1 MiB is written and flushed, two more bytes
  follow at once, and a last byte after a pause. The clock of \<open>idle_env\<close> advances
  10 ms per reading and 2 s more from its 38th reading on.
\<close>

definition busy_then_idle :: "unit io_op list" where
  "busy_then_idle =
     [DoWrite (replicate 1048576 (CHR ''x'')), DoFlush, DoWrite ''y'', DoFlush,
      DoWrite ''z'', DoFlush, DoWrite ''u'', DoFlush]"

definition idle_env :: io_env where
  "idle_env =
     smooth_env\<lparr>time_now :=
       (\<lambda>n. 1000000000 + int n * 10000 + (if n < 37 then 0 else 2000000))\<rparr>"

definition is_tuning :: "io_event \<Rightarrow> bool" where
  "is_tuning e =
     (case e of Passed t bs \<Rightarrow> False | PassFailed st \<Rightarrow> False
      | WriteSizeReset t n \<Rightarrow> True | WriteSizeMax n \<Rightarrow> True)"

section \<open>Theorems: the list of extra processes\<close>

lemma unregister_set_subset:
  "set (snd (ap_unregister_extra_mpm_process pid es)) \<subseteq> set es"
  by (induction es) (auto split: prod.splits)

lemma unregister_distinct:
  "distinct es \<Longrightarrow> distinct (snd (ap_unregister_extra_mpm_process pid es))"
proof (induction es)
  case Nil
  then show ?case by simp
next
  case (Cons cur rest)
  have sub: "set (snd (ap_unregister_extra_mpm_process pid rest)) \<subseteq> set rest"
    by (rule unregister_set_subset)
  from Cons sub show ?case
    by (auto split: prod.splits)
qed

lemma run_extra_ops_distinct:
  "distinct es \<Longrightarrow> registers_fresh ops es \<Longrightarrow> distinct (run_extra_ops ops es)"
proof (induction ops arbitrary: es)
  case Nil
  then show ?case by (simp add: run_extra_ops_def)
next
  case (Cons x ops)
  show ?case
  proof (cases x)
    case (Register pid)
    with Cons.prems have "distinct (pid # es)"
      and "registers_fresh ops (pid # es)"
      by (simp_all add: ap_register_extra_mpm_process_def)
    then have "distinct (run_extra_ops ops (pid # es))"
      by (rule Cons.IH)
    with Register show ?thesis
      by (simp add: run_extra_ops_def ap_register_extra_mpm_process_def)
  next
    case (Unregister pid)
    let ?e = "snd (ap_unregister_extra_mpm_process pid es)"
    from Cons.prems have "distinct ?e" by (simp add: unregister_distinct)
    moreover from Cons.prems Unregister have "registers_fresh ops ?e" by simp
    ultimately have "distinct (run_extra_ops ops ?e)" by (rule Cons.IH)
    with Unregister show ?thesis by (simp add: run_extra_ops_def)
  qed
qed

text \<open>
  C9, as stated, fails: \<open>ap_register_extra_mpm_process\<close> prepends without looking at
  the list, so registering pid 7 twice leaves two entries with pid 7.
\<close>

theorem C9_register_twice_counterexample:
  "\<not> distinct (run_extra_ops [Register 7, Register 7] [])"
  by (simp add: run_extra_ops_def ap_register_extra_mpm_process_def)

text \<open>
  C9, amended: starting from a list without duplicates, after every sequence of
  register and unregister operations in which a pid is only registered while it is not
  in the list, no two entries of the list share a pid.
\<close>

theorem C9_extras_distinct:
  assumes "distinct es" and "registers_fresh ops es"
  shows "distinct (run_extra_ops ops es)"
  using assms by (rule run_extra_ops_distinct)

theorem C9_extras_distinct_witness:
  "distinct ([] :: pid_t list)
   \<and> registers_fresh [Register 7, Register 9, Unregister 7, Register 7] []
   \<and> distinct (run_extra_ops [Register 7, Register 9, Unregister 7, Register 7] [])"
proof -
  have h1: "distinct ([] :: pid_t list)" by simp
  have h2: "registers_fresh [Register 7, Register 9, Unregister 7, Register 7] []"
    by (simp add: ap_register_extra_mpm_process_def)
  from h1 h2 C9_extras_distinct [OF h1 h2] show ?thesis by simp
qed

section \<open>Theorems: the pipe of death\<close>

lemma dummy_connection_socket_events:
  assumes "pool_create_rv env = APR_SUCCESS" and "ap_listeners env \<noteq> []"
  shows "\<exists>rv evs. dummy_connection env = Some (rv, evs) \<and> filter is_socket_event evs \<noteq> []"
proof -
  from assms(2) obtain lp where
    lp: "(case find_http_listener (ap_listeners env) of
            None \<Rightarrow> (case ap_listeners env of [] \<Rightarrow> None | l # ls \<Rightarrow> Some l)
          | Some l \<Rightarrow> Some l) = Some lp"
    by (cases "find_http_listener (ap_listeners env)"; cases "ap_listeners env") auto
  show ?thesis
    unfolding dummy_connection_def using assms(1)
    by (simp add: lp Let_def is_socket_event_def)
qed

text \<open>
  C7, as stated, fails: \<open>ap_mpm_pod_signal\<close> returns the status of the failed write
  at once. With a pipe whose write fails and a listener ready to be connected to, the
  only events are the write attempt and the warning; no socket is opened.
\<close>

theorem C7_write_failure_counterexample:
  "ap_mpm_pod_signal failing_pipe_env =
     Some (APR_EGENERAL,
           [FileWrite CHR ''!'', Log APLOG_WARNING APR_EGENERAL ''write pipe_of_death''])"
  by (simp add: ap_mpm_pod_signal_def pod_signal_internal_def failing_pipe_env_def
      working_pipe_env_def APR_EGENERAL_def APR_SUCCESS_def)

text \<open>
  C7, amended: when the write of the sentinel byte fails, the failure is logged as a
  warning and its status is returned to the caller, and no dummy connection is made;
  when the write succeeds (and a pool and a listener exist), the dummy connection to a
  listener is made.
\<close>

theorem C7_pod_signal:
  "(file_write_rv env \<noteq> APR_SUCCESS \<longrightarrow>
      (\<exists>evs. ap_mpm_pod_signal env = Some (file_write_rv env, evs)
             \<and> Log APLOG_WARNING (file_write_rv env) ''write pipe_of_death'' \<in> set evs
             \<and> filter is_socket_event evs = []))
   \<and> (file_write_rv env = APR_SUCCESS \<and> pool_create_rv env = APR_SUCCESS
        \<and> ap_listeners env \<noteq> [] \<longrightarrow>
      (\<exists>rv evs. ap_mpm_pod_signal env = Some (rv, evs)
             \<and> filter is_socket_event evs \<noteq> []))"
proof (intro conjI impI)
  assume "file_write_rv env \<noteq> APR_SUCCESS"
  then show "\<exists>evs. ap_mpm_pod_signal env = Some (file_write_rv env, evs)
             \<and> Log APLOG_WARNING (file_write_rv env) ''write pipe_of_death'' \<in> set evs
             \<and> filter is_socket_event evs = []"
    by (simp add: ap_mpm_pod_signal_def pod_signal_internal_def is_socket_event_def Let_def)
next
  assume a: "file_write_rv env = APR_SUCCESS \<and> pool_create_rv env = APR_SUCCESS
        \<and> ap_listeners env \<noteq> []"
  then obtain rv evs where d: "dummy_connection env = Some (rv, evs)"
    and s: "filter is_socket_event evs \<noteq> []"
    using dummy_connection_socket_events by blast
  from a d s show "\<exists>rv evs. ap_mpm_pod_signal env = Some (rv, evs)
             \<and> filter is_socket_event evs \<noteq> []"
    by (simp add: ap_mpm_pod_signal_def pod_signal_internal_def is_socket_event_def Let_def)
qed

theorem C7_pod_signal_witness:
  "file_write_rv failing_pipe_env \<noteq> APR_SUCCESS
   \<and> (\<exists>evs. ap_mpm_pod_signal failing_pipe_env = Some (file_write_rv failing_pipe_env, evs)
          \<and> Log APLOG_WARNING (file_write_rv failing_pipe_env) ''write pipe_of_death''
              \<in> set evs
          \<and> filter is_socket_event evs = [])
   \<and> file_write_rv working_pipe_env = APR_SUCCESS
   \<and> pool_create_rv working_pipe_env = APR_SUCCESS
   \<and> ap_listeners working_pipe_env \<noteq> []
   \<and> (\<exists>rv evs. ap_mpm_pod_signal working_pipe_env = Some (rv, evs)
          \<and> filter is_socket_event evs \<noteq> [])"
proof -
  have f: "file_write_rv failing_pipe_env \<noteq> APR_SUCCESS"
    by (simp add: failing_pipe_env_def APR_EGENERAL_def APR_SUCCESS_def)
  have w: "file_write_rv working_pipe_env = APR_SUCCESS
           \<and> pool_create_rv working_pipe_env = APR_SUCCESS
           \<and> ap_listeners working_pipe_env \<noteq> []"
    by (simp add: working_pipe_env_def)
  from f w C7_pod_signal [of failing_pipe_env] C7_pod_signal [of working_pipe_env]
  show ?thesis by blast
qed

section \<open>Theorems: security compliance\<close>

text \<open>
  C4, as stated, fails. On an encrypted connection with the compliance policy enabled,
  when mod\_ssl's lookup function is missing, no TLS version and no cipher can be
  found, and with \<open>require_all\<close> 0 the connection is reported as not compliant: the
  code returns 0 at \<open>if (!opt_ssl_var_lookup)\<close>, before it looks at \<open>require_all\<close>.
\<close>

theorem C4_no_lookup_counterexample:
  "h2_h2_is_tls (h2_h2_init (mod_ssl_fns\<lparr>reg_ssl_var_lookup := None\<rparr>)) tls_conn
   \<and> h2_compliance (conn_cfg tls_conn) > 0
   \<and> \<not> var_available (ssl_vars tls_conn ''SSL_PROTOCOL'')
   \<and> \<not> var_available (ssl_vars tls_conn ''SSL_CIPHER'')
   \<and> fst (h2_is_security_compliant (h2_h2_init (mod_ssl_fns\<lparr>reg_ssl_var_lookup := None\<rparr>))
            tls_conn 0) = 0"
  by (simp add: h2_is_security_compliant_def h2_h2_is_tls_def h2_h2_init_def mod_ssl_fns_def
      tls_conn_def var_available_def)

text \<open>
  C4, amended: on an encrypted connection with the compliance policy enabled, when
  mod\_ssl's lookup function is there and the lookup of the negotiated TLS version and
  the lookup of the cipher both come back without a value (\<open>NULL\<close> or the empty
  string, which is what the code tests), the connection is compliant when
  \<open>require_all\<close> is 0 and not compliant otherwise; when the lookup function is
  missing, the connection is not compliant, whatever \<open>require_all\<close> is.
\<close>

theorem C4_unavailable_leniency:
  assumes "h2_h2_is_tls g c" and "h2_compliance (conn_cfg c) > 0"
  shows "(\<forall>lookup. opt_ssl_var_lookup g = Some lookup
            \<and> \<not> var_available (lookup c ''SSL_PROTOCOL'')
            \<and> \<not> var_available (lookup c ''SSL_CIPHER'')
          \<longrightarrow> fst (h2_is_security_compliant g c require_all)
                = (if require_all = 0 then 1 else 0))
         \<and> (opt_ssl_var_lookup g = None
          \<longrightarrow> fst (h2_is_security_compliant g c require_all) = 0)"
  using assms by (auto simp add: h2_is_security_compliant_def Let_def)

theorem C4_unavailable_leniency_witness:
  "opt_ssl_var_lookup (h2_h2_init mod_ssl_fns) = Some ssl_vars
   \<and> h2_h2_is_tls (h2_h2_init mod_ssl_fns) tls_conn
   \<and> h2_compliance (conn_cfg tls_conn) > 0
   \<and> \<not> var_available (ssl_vars tls_conn ''SSL_PROTOCOL'')
   \<and> \<not> var_available (ssl_vars tls_conn ''SSL_CIPHER'')
   \<and> fst (h2_is_security_compliant (h2_h2_init mod_ssl_fns) tls_conn 0) = 1
   \<and> fst (h2_is_security_compliant (h2_h2_init mod_ssl_fns) tls_conn 1) = 0
   \<and> opt_ssl_var_lookup (h2_h2_init (mod_ssl_fns\<lparr>reg_ssl_var_lookup := None\<rparr>)) = None
   \<and> h2_h2_is_tls (h2_h2_init (mod_ssl_fns\<lparr>reg_ssl_var_lookup := None\<rparr>)) tls_conn
   \<and> fst (h2_is_security_compliant (h2_h2_init (mod_ssl_fns\<lparr>reg_ssl_var_lookup := None\<rparr>))
            tls_conn 1) = 0"
proof -
  let ?g = "h2_h2_init mod_ssl_fns"
  let ?gn = "h2_h2_init (mod_ssl_fns\<lparr>reg_ssl_var_lookup := None\<rparr>)"
  have h1: "opt_ssl_var_lookup ?g = Some ssl_vars"
    by (simp add: h2_h2_init_def mod_ssl_fns_def)
  have h2: "h2_h2_is_tls ?g tls_conn"
    by (simp add: h2_h2_is_tls_def h2_h2_init_def mod_ssl_fns_def tls_conn_def)
  have h3: "h2_compliance (conn_cfg tls_conn) > 0" by (simp add: tls_conn_def)
  have h4: "\<not> var_available (ssl_vars tls_conn ''SSL_PROTOCOL'')"
    by (simp add: var_available_def tls_conn_def)
  have h5: "\<not> var_available (ssl_vars tls_conn ''SSL_CIPHER'')"
    by (simp add: var_available_def tls_conn_def)
  have k1: "opt_ssl_var_lookup ?gn = None" by (simp add: h2_h2_init_def)
  have k2: "h2_h2_is_tls ?gn tls_conn"
    by (simp add: h2_h2_is_tls_def h2_h2_init_def mod_ssl_fns_def tls_conn_def)
  from C4_unavailable_leniency [OF h2 h3, of 0] h1 h4 h5
  have a: "fst (h2_is_security_compliant ?g tls_conn 0) = 1" by simp
  from C4_unavailable_leniency [OF h2 h3, of 1] h1 h4 h5
  have b: "fst (h2_is_security_compliant ?g tls_conn 1) = 0" by simp
  from C4_unavailable_leniency [OF k2 h3, of 1] k1
  have c: "fst (h2_is_security_compliant ?gn tls_conn 1) = 0" by simp
  from h1 h2 h3 h4 h5 a b k1 k2 c show ?thesis by simp
qed

text \<open>
  C10: when \<open>h2_h2_init\<close> found no \<open>ssl_var_lookup\<close> function, every encrypted
  connection with the compliance policy enabled is reported as not compliant, whatever
  \<open>require_all\<close> is, and no SSL variable is looked up.
\<close>

theorem C10_no_lookup_not_compliant:
  assumes "reg_ssl_var_lookup fns = None"
    and "h2_h2_is_tls (h2_h2_init fns) c"
    and "h2_compliance (conn_cfg c) > 0"
  shows "h2_is_security_compliant (h2_h2_init fns) c require_all = (0, [])"
  using assms by (simp add: h2_is_security_compliant_def h2_h2_init_def)

theorem C10_no_lookup_not_compliant_witness:
  "reg_ssl_var_lookup (mod_ssl_fns\<lparr>reg_ssl_var_lookup := None\<rparr>) = None
   \<and> h2_h2_is_tls (h2_h2_init (mod_ssl_fns\<lparr>reg_ssl_var_lookup := None\<rparr>)) tls_conn
   \<and> h2_compliance (conn_cfg tls_conn) > 0
   \<and> h2_is_security_compliant (h2_h2_init (mod_ssl_fns\<lparr>reg_ssl_var_lookup := None\<rparr>))
        tls_conn 0 = (0, [])
   \<and> h2_is_security_compliant (h2_h2_init (mod_ssl_fns\<lparr>reg_ssl_var_lookup := None\<rparr>))
        tls_conn 1 = (0, [])"
proof -
  let ?fns = "mod_ssl_fns\<lparr>reg_ssl_var_lookup := None\<rparr>"
  have h1: "reg_ssl_var_lookup ?fns = None" by simp
  have h2: "h2_h2_is_tls (h2_h2_init ?fns) tls_conn"
    by (simp add: h2_h2_is_tls_def h2_h2_init_def mod_ssl_fns_def tls_conn_def)
  have h3: "h2_compliance (conn_cfg tls_conn) > 0" by (simp add: tls_conn_def)
  from h1 h2 h3 C10_no_lookup_not_compliant [OF h1 h2 h3, of 0]
    C10_no_lookup_not_compliant [OF h1 h2 h3, of 1]
  show ?thesis by simp
qed

section \<open>Theorems: sniffing the connection preface\<close>

lemma H2_MAGIC_TOKEN_length: "length H2_MAGIC_TOKEN = 24"
  by (simp add: H2_MAGIC_TOKEN_def)

lemma process_conn_sniffed:
  assumes "\<not> h2_ctx_is_task (conn_ctx c)"
    and "h2_ctx_protocol_get c = None" and "conn_protocol c = AP_PROTOCOL_HTTP1"
    and "h2_direct (conn_cfg c) > 0"
    and "after_init g env c = (APR_SUCCESS, c1)"
    and "h2_ctx_protocol_get c1 = None" and "conn_protocol c1 = AP_PROTOCOL_HTTP1"
    and "get_brigade_speculative env c1 24 = (status, s)"
  shows "h2_h2_process_conn g env h2_conn_main c =
     (if status = APR_SUCCESS \<and> length s \<ge> 24 \<and> take 24 s = H2_MAGIC_TOKEN
      then (let c' = c1\<lparr>conn_ctx := h2_ctx_protocol_set (conn_ctx c1)
                          (if h2_h2_is_tls g c then ''h2'' else ''h2c'')\<rparr>
            in (h2_conn_main c', c'))
      else (DECLINED, c1))"
  using assms unfolding h2_h2_process_conn_def
  by (auto simp add: Let_def after_init_def H2_MAGIC_TOKEN_length h2_ctx_protocol_get_def
      h2_ctx_protocol_set_def h2_ctx_is_active_def split: if_splits)

text \<open>
  C3: on a connection that is not a task, is on \<open>http/1.1\<close> with no protocol selected
  (also after the handshake-triggering read, which succeeded, on an encrypted
  transport), with direct mode enabled, where the speculative read of 24 bytes
  succeeded and returned \<open>s\<close>: if the first 24 bytes of \<open>s\<close> are the magic preface,
  the connection is handed to the engine with protocol \<open>h2\<close> (encrypted) or \<open>h2c\<close>
  (cleartext); if \<open>s\<close> has fewer than 24 bytes, or its first 24 bytes are the preface
  with one byte changed, the connection is declined and left as it was.
\<close>

theorem C3_sniff_exact:
  assumes "\<not> h2_ctx_is_task (conn_ctx c)"
    and "h2_ctx_protocol_get c = None" and "conn_protocol c = AP_PROTOCOL_HTTP1"
    and "h2_direct (conn_cfg c) > 0"
    and "after_init g env c = (APR_SUCCESS, c1)"
    and "h2_ctx_protocol_get c1 = None" and "conn_protocol c1 = AP_PROTOCOL_HTTP1"
    and "get_brigade_speculative env c1 24 = (APR_SUCCESS, s)"
  shows "(take 24 s = H2_MAGIC_TOKEN \<longrightarrow>
            sniff_outcome (h2_h2_process_conn g env h2_conn_main c) h2_conn_main
              = Detected (if h2_h2_is_tls g c then ''h2'' else ''h2c''))
       \<and> (length s < 24 \<longrightarrow>
            h2_h2_process_conn g env h2_conn_main c = (DECLINED, c1)
            \<and> sniff_outcome (DECLINED, c1) h2_conn_main = Declined)
       \<and> (\<forall>i b. i < 24 \<and> b \<noteq> H2_MAGIC_TOKEN ! i \<and> take 24 s = H2_MAGIC_TOKEN[i := b] \<longrightarrow>
            h2_h2_process_conn g env h2_conn_main c = (DECLINED, c1)
            \<and> sniff_outcome (DECLINED, c1) h2_conn_main = Declined)"
proof -
  note eq = process_conn_sniffed [OF assms, of h2_conn_main]
  have dec: "sniff_outcome (DECLINED, c1) h2_conn_main = Declined"
    using assms(6) by (simp add: sniff_outcome_def)
  have detected: "sniff_outcome (h2_h2_process_conn g env h2_conn_main c) h2_conn_main
              = Detected (if h2_h2_is_tls g c then ''h2'' else ''h2c'')"
    if m: "take 24 s = H2_MAGIC_TOKEN"
  proof -
    have "length (take 24 s) = 24" using m H2_MAGIC_TOKEN_length by simp
    then have "length s \<ge> 24" by simp
    with m show ?thesis
      by (simp add: eq Let_def sniff_outcome_def h2_ctx_protocol_set_def
          h2_ctx_protocol_get_def)
  qed
  have short: "h2_h2_process_conn g env h2_conn_main c = (DECLINED, c1)" if "length s < 24"
    using that by (simp add: eq)
  have mutated: "h2_h2_process_conn g env h2_conn_main c = (DECLINED, c1)"
    if a: "i < 24 \<and> b \<noteq> H2_MAGIC_TOKEN ! i \<and> take 24 s = H2_MAGIC_TOKEN[i := b]" for i b
  proof -
    from a have "(take 24 s) ! i = b" by (simp add: H2_MAGIC_TOKEN_length)
    with a have "take 24 s \<noteq> H2_MAGIC_TOKEN" by auto
    then show ?thesis by (simp add: eq)
  qed
  from dec detected short mutated show ?thesis by blast
qed

lemma sniff_fixture_facts:
  "\<not> h2_ctx_is_task (conn_ctx clear_conn)"
  "h2_ctx_protocol_get clear_conn = None"
  "conn_protocol clear_conn = AP_PROTOCOL_HTTP1"
  "h2_direct (conn_cfg clear_conn) > 0"
  "\<not> h2_ctx_is_task (conn_ctx tls_conn)"
  "h2_ctx_protocol_get tls_conn = None"
  "conn_protocol tls_conn = AP_PROTOCOL_HTTP1"
  "h2_direct (conn_cfg tls_conn) > 0"
  "h2_h2_is_tls (h2_h2_init mod_ssl_fns) tls_conn"
  "\<not> h2_h2_is_tls (h2_h2_init mod_ssl_fns) clear_conn"
  by (simp_all add: clear_conn_def tls_conn_def h2_ctx_is_task_def h2_ctx_protocol_get_def
      AP_PROTOCOL_HTTP1_def h2_h2_is_tls_def h2_h2_init_def mod_ssl_fns_def)

lemma sniff_fixture_reads:
  "after_init (h2_h2_init mod_ssl_fns) preface_env clear_conn = (APR_SUCCESS, clear_conn)"
  "after_init (h2_h2_init mod_ssl_fns) preface_env tls_conn = (APR_SUCCESS, tls_conn)"
  "after_init (h2_h2_init mod_ssl_fns) mutated_env clear_conn = (APR_SUCCESS, clear_conn)"
  "after_init (h2_h2_init mod_ssl_fns) short_env clear_conn = (APR_SUCCESS, clear_conn)"
  "get_brigade_speculative preface_env c 24 = (APR_SUCCESS, H2_MAGIC_TOKEN)"
  "get_brigade_speculative mutated_env c 24 = (APR_SUCCESS, H2_MAGIC_TOKEN[3 := CHR ''X''])"
  "get_brigade_speculative short_env c 24 = (APR_SUCCESS, take 23 H2_MAGIC_TOKEN)"
  by (simp_all add: after_init_def preface_env_def mutated_env_def short_env_def
      H2_MAGIC_TOKEN_length)

theorem C3_sniff_exact_witness:
  "sniff_outcome (h2_h2_process_conn (h2_h2_init mod_ssl_fns) preface_env (\<lambda>c. 0) clear_conn)
     (\<lambda>c. 0) = Detected ''h2c''
   \<and> sniff_outcome (h2_h2_process_conn (h2_h2_init mod_ssl_fns) preface_env (\<lambda>c. 0) tls_conn)
     (\<lambda>c. 0) = Detected ''h2''
   \<and> h2_h2_process_conn (h2_h2_init mod_ssl_fns) mutated_env (\<lambda>c. 0) clear_conn
     = (DECLINED, clear_conn)
   \<and> h2_h2_process_conn (h2_h2_init mod_ssl_fns) short_env (\<lambda>c. 0) clear_conn
     = (DECLINED, clear_conn)"
proof -
  let ?g = "h2_h2_init mod_ssl_fns"
  note f = sniff_fixture_facts and r = sniff_fixture_reads
  have a: "sniff_outcome (h2_h2_process_conn ?g preface_env (\<lambda>c. 0) clear_conn) (\<lambda>c. 0)
           = Detected ''h2c''"
    using C3_sniff_exact [OF f(1) f(2) f(3) f(4) r(1) f(2) f(3) r(5), of "\<lambda>c. 0"] f(10)
    by (simp add: H2_MAGIC_TOKEN_length)
  have b: "sniff_outcome (h2_h2_process_conn ?g preface_env (\<lambda>c. 0) tls_conn) (\<lambda>c. 0)
           = Detected ''h2''"
    using C3_sniff_exact [OF f(5) f(6) f(7) f(8) r(2) f(6) f(7) r(5), of "\<lambda>c. 0"] f(9)
    by (simp add: H2_MAGIC_TOKEN_length)
  have m: "(3::nat) < 24 \<and> CHR ''X'' \<noteq> H2_MAGIC_TOKEN ! 3
           \<and> take 24 (H2_MAGIC_TOKEN[3 := CHR ''X'']) = H2_MAGIC_TOKEN[3 := CHR ''X'']"
    by (simp add: H2_MAGIC_TOKEN_def)
  have c: "h2_h2_process_conn ?g mutated_env (\<lambda>c. 0) clear_conn = (DECLINED, clear_conn)"
    using C3_sniff_exact [OF f(1) f(2) f(3) f(4) r(3) f(2) f(3) r(6), of "\<lambda>c. 0"] m
    by blast
  have s: "length (take 23 H2_MAGIC_TOKEN) < 24" by simp
  have d: "h2_h2_process_conn ?g short_env (\<lambda>c. 0) clear_conn = (DECLINED, clear_conn)"
    using C3_sniff_exact [OF f(1) f(2) f(3) f(4) r(4) f(2) f(3) r(7), of "\<lambda>c. 0"] s
    by blast
  from a b c d show ?thesis by simp
qed

section \<open>Theorems: reclaiming child processes\<close>

lemma fold_invariant:
  assumes "P acc" and "\<And>x a. P a \<Longrightarrow> P (f x a)"
  shows "P (fold f xs acc)"
  using assms(1) by (induction xs arbitrary: acc) (simp_all add: assms(2))

lemma same_timing_refl: "same_timing st st"
  by (simp add: same_timing_def)

lemma same_timing_trans: "same_timing a b \<Longrightarrow> same_timing b c \<Longrightarrow> same_timing a c"
  by (simp add: same_timing_def)

lemma reclaim_one_pid_timing:
  "same_timing st (snd (reclaim_one_pid env pid action st))"
  by (cases action) (simp_all add: reclaim_one_pid_def same_timing_def Let_def)

lemma reclaim_one_pid_ret:
  "fst (reclaim_one_pid env pid action st) = 0 \<or> fst (reclaim_one_pid env pid action st) = 1"
  by (cases action) (simp_all add: reclaim_one_pid_def Let_def)

lemma reclaim_slot_inv:
  assumes "same_timing st (fst a) \<and> 0 \<le> snd a"
  shows "same_timing st (fst (reclaim_slot env action i a)) \<and> 0 \<le> snd (reclaim_slot env action i a)"
proof -
  obtain s n where a: "a = (s, n)" by (cases a)
  obtain r s' where r: "reclaim_one_pid env (scoreboard s i) action s = (r, s')"
    by (cases "reclaim_one_pid env (scoreboard s i) action s")
  have "same_timing s s'" using reclaim_one_pid_timing [of s env "scoreboard s i" action] r by simp
  with assms a r show ?thesis
    by (auto simp add: reclaim_slot_def Let_def same_timing_def)
qed

lemma reclaim_extra_inv:
  assumes "same_timing st (fst a) \<and> 0 \<le> snd a"
  shows "same_timing st (fst (reclaim_extra env action pid a)) \<and> 0 \<le> snd (reclaim_extra env action pid a)"
proof -
  obtain s n where a: "a = (s, n)" by (cases a)
  obtain r s' where r: "reclaim_one_pid env pid action s = (r, s')"
    by (cases "reclaim_one_pid env pid action s")
  have "same_timing s s'" using reclaim_one_pid_timing [of s env pid action] r by simp
  with assms a r show ?thesis
    by (auto simp add: reclaim_extra_def Let_def same_timing_def)
qed

lemma reclaim_pass_inv:
  "same_timing st (fst (reclaim_pass env action st)) \<and> 0 \<le> snd (reclaim_pass env action st)"
proof -
  let ?P = "\<lambda>a :: reclaim_state \<times> int. same_timing st (fst a) \<and> 0 \<le> snd a"
  let ?acc1 = "fold (reclaim_slot env action) [0..<max_daemons env] (st, 0)"
  have "?P (st, 0)" by (simp add: same_timing_refl)
  then have "?P ?acc1"
    by (rule fold_invariant) (rule reclaim_slot_inv)
  then have "?P (fold (reclaim_extra env action) (extras (fst ?acc1)) ?acc1)"
    by (rule fold_invariant) (rule reclaim_extra_inv)
  then show ?thesis by (simp add: reclaim_pass_def Let_def)
qed

text \<open>What one iteration does to the timing variables and the history.\<close>

lemma reclaim_iteration_result:
  fixes env :: reclaim_env and st :: reclaim_state
  assumes "next_action st < 6"
  defines "elapsed \<equiv> now st + waittime st + int (sleep_overrun env (sleeps st)) - starttime st"
  defines "fire \<equiv> snd (action_table ! next_action st) \<le> elapsed"
  defines "cur \<equiv> (if fire then next_action st else 0)"
  shows "\<exists>st' ndy. reclaim_iteration env st
            = Some (ndy > 0 \<and> fst (action_table ! cur) \<noteq> GIVEUP, st')
          \<and> 0 \<le> ndy
          \<and> waittime st' = (if waittime st * 4 > 1000000 then 1000000 else waittime st * 4)
          \<and> next_action st' = (if fire then next_action st + 1 else next_action st)
          \<and> starttime st' = starttime st
          \<and> now st' = now st + waittime st + int (sleep_overrun env (sleeps st))
          \<and> sleeps st' = sleeps st + 1
          \<and> slept st' = slept st + waittime st
          \<and> history st' = history st @ [(elapsed, cur, ndy)]"
proof -
  define st3 where "st3 =
    (let st1 = st\<lparr>now := now st + waittime st + int (sleep_overrun env (sleeps st)),
                    sleeps := sleeps st + 1,
                    slept := slept st + waittime st\<rparr>;
         w = waittime st1 * 4;
         st2 = st1\<lparr>waittime := (if w > apr_time_from_sec 1 then apr_time_from_sec 1 else w)\<rparr>
     in if fire then st2\<lparr>next_action := next_action st2 + 1\<rparr> else st2)"
  define pass where "pass = reclaim_pass env (fst (action_table ! cur)) st3"
  have len: "length action_table = 6" by (simp add: action_table_def)
  have it: "reclaim_iteration env st
     = Some (snd pass > 0 \<and> fst (action_table ! cur) \<noteq> GIVEUP,
             (fst pass)\<lparr>history := history (fst pass) @ [(elapsed, cur, snd pass)]\<rparr>)"
    using assms(1)
    by (simp add: reclaim_iteration_def Let_def len elapsed_def fire_def cur_def
        split_beta pass_def st3_def)
  from reclaim_pass_inv [of st3 env "fst (action_table ! cur)"]
  have t: "same_timing st3 (fst pass)" and n: "0 \<le> snd pass"
    by (simp_all add: pass_def)
  have st3: "waittime st3 = (if waittime st * 4 > 1000000 then 1000000 else waittime st * 4)"
    "next_action st3 = (if fire then next_action st + 1 else next_action st)"
    "starttime st3 = starttime st"
    "now st3 = now st + waittime st + int (sleep_overrun env (sleeps st))"
    "sleeps st3 = sleeps st + 1"
    "slept st3 = slept st + waittime st"
    "history st3 = history st"
    by (simp_all add: st3_def Let_def apr_time_from_sec_def)
  from t n st3 show ?thesis
    unfolding it
    by (intro exI [of _ "(fst pass)\<lparr>history := history (fst pass) @ [(elapsed, cur, snd pass)]\<rparr>"]
        exI [of _ "snd pass"]) (simp add: same_timing_def)
qed

lemma action_table_entries:
  "length action_table = 6"
  "snd (action_table ! 0) = 0"
  "snd (action_table ! 1) = 3000000"
  "snd (action_table ! 2) = 5000000"
  "snd (action_table ! 3) = 7000000"
  "snd (action_table ! 4) = 9000000"
  "snd (action_table ! 5) = 10000000"
  "fst (action_table ! 0) = DO_NOTHING"
  "fst (action_table ! 1) = SEND_SIGTERM"
  "fst (action_table ! 2) = SEND_SIGTERM"
  "fst (action_table ! 3) = SEND_SIGTERM"
  "fst (action_table ! 4) = SEND_SIGKILL"
  "fst (action_table ! 5) = GIVEUP"
  "snd (action_table ! Suc 0) = 3000000"
  "fst (action_table ! Suc 0) = SEND_SIGTERM"
  by (simp_all add: action_table_def apr_time_from_sec_def)

lemma next_action_cases:
  assumes "1 \<le> n" and "n \<le> (5::nat)"
  shows "n = 1 \<or> n = 2 \<or> n = 3 \<or> n = 4 \<or> n = 5"
  using assms by arith

lemma schedule_cases:
  assumes "k \<le> (12::nat)"
  shows "k = 0 \<or> k = 1 \<or> k = 2 \<or> k = 3 \<or> k = 4 \<or> k = 5 \<or> k = 6 \<or> k = 7 \<or> k = 8
         \<or> k = 9 \<or> k = 10 \<or> k = 11 \<or> k = 12"
  using assms by arith

lemma poll_schedule_step:
  assumes "k \<le> 12"
  shows "(if poll_waittime k * 4 > 1000000 then 1000000 else poll_waittime k * 4)
           = poll_waittime (Suc k)"
    and "poll_slept k + poll_waittime k = poll_slept (Suc k)"
    and "poll_next k \<le> poll_next (Suc k)" and "1 \<le> poll_next k"
    and "poll_next (Suc k) \<le> Suc (poll_next k)"
  using schedule_cases [OF assms]
  by (auto simp add: poll_waittime_def poll_slept_def poll_next_def)

text \<open>
  An entry that the exact schedule has taken by poll \<open>k + 1\<close> has its threshold at or
  before the time slept in \<open>k + 1\<close> sleeps.
\<close>

lemma poll_next_threshold:
  assumes "k \<le> 12" and "poll_next k \<le> n" and "n < poll_next (Suc k) \<or> k = 12" and "n \<le> 5"
  shows "snd (action_table ! n) \<le> poll_slept (Suc k)"
proof -
  from assms(2) poll_schedule_step(4) [OF assms(1)] have "1 \<le> n" by simp
  from next_action_cases [OF this assms(4)] schedule_cases [OF assms(1)] assms(2,3)
  show ?thesis
    by (auto simp add: poll_slept_def poll_next_def action_table_entries)
qed

lemma reclaim_iteration_schedule:
  fixes env :: reclaim_env
  assumes "on_schedule k st" and "k \<le> 12"
  shows "\<exists>again st'. reclaim_iteration env st = Some (again, st')
           \<and> sleeps st' = Suc k \<and> slept st' = poll_slept (Suc k)
           \<and> (again \<longrightarrow> k < 12 \<and> on_schedule (Suc k) st')"
proof -
  from assms(1) have s: "sleeps st = k" "waittime st = poll_waittime k"
    "slept st = poll_slept k" "poll_slept k \<le> now st - starttime st"
    "poll_next k \<le> next_action st" "next_action st \<le> 5"
    by (simp_all add: on_schedule_def)
  define elapsed where
    "elapsed = now st + waittime st + int (sleep_overrun env (sleeps st)) - starttime st"
  define fire where "fire = (snd (action_table ! next_action st) \<le> elapsed)"
  define cur where "cur = (if fire then next_action st else 0)"
  from s(6) have "next_action st < 6" by simp
  from reclaim_iteration_result [OF this, of env, folded elapsed_def fire_def cur_def]
  obtain st' and ndy :: int where it: "reclaim_iteration env st
            = Some (ndy > 0 \<and> fst (action_table ! cur) \<noteq> GIVEUP, st')"
    and r: "waittime st' = (if waittime st * 4 > 1000000 then 1000000 else waittime st * 4)"
      "next_action st' = (if fire then next_action st + 1 else next_action st)"
      "starttime st' = starttime st"
      "now st' = now st + waittime st + int (sleep_overrun env (sleeps st))"
      "sleeps st' = sleeps st + 1"
      "slept st' = slept st + waittime st"
    by blast
  let ?again = "ndy > 0 \<and> fst (action_table ! cur) \<noteq> GIVEUP"
  have el: "poll_slept (Suc k) \<le> elapsed"
    using s(2,4) poll_schedule_step(2) [OF assms(2)] by (simp add: elapsed_def)
  have w: "waittime st' = poll_waittime (Suc k)"
    unfolding r(1) s(2) by (rule poll_schedule_step(1) [OF assms(2)])
  have sl: "slept st' = poll_slept (Suc k)"
    unfolding r(6) s(2,3) by (rule poll_schedule_step(2) [OF assms(2)])
  have must_fire: fire if "next_action st < poll_next (Suc k) \<or> k = 12"
    using poll_next_threshold [OF assms(2) s(5) that s(6)] el by (simp add: fire_def)
  have nxt: "poll_next (Suc k) \<le> next_action st'"
    using must_fire r(2) s(5) poll_schedule_step(5) [OF assms(2)]
    by (cases "next_action st < poll_next (Suc k)") auto
  have k12: "\<not> ?again" if "k = 12"
  proof -
    from that s(5,6) have "next_action st = 5" by (simp add: poll_next_def)
    moreover from that must_fire have fire by simp
    ultimately show ?thesis by (simp add: cur_def action_table_entries)
  qed
  have le5: "next_action st' \<le> 5" if ?again
  proof (cases "fire \<and> next_action st = 5")
    case True
    with that show ?thesis by (simp add: cur_def action_table_entries)
  next
    case False
    with r(2) s(6) show ?thesis by auto
  qed
  have "k < 12 \<and> on_schedule (Suc k) st'" if a: ?again
  proof -
    from k12 a have "k \<noteq> 12" by blast
    with assms(2) have "k < 12" by simp
    moreover have "on_schedule (Suc k) st'"
      unfolding on_schedule_def
      using le5 [OF a] nxt w sl el r(3,4,5) s(1) by (simp add: elapsed_def)
    ultimately show ?thesis by simp
  qed
  with it r(5) s(1) sl show ?thesis by auto
qed

lemma reclaim_loop_runs:
  fixes env :: reclaim_env
  assumes "on_schedule k st" and "k + n = 12" and "Inv st"
    and step: "\<And>s again s'. Inv s \<Longrightarrow> next_action s \<le> 5
                 \<Longrightarrow> reclaim_iteration env s = Some (again, s')
                 \<Longrightarrow> (if again then Inv s' else Fin s')"
  shows "\<exists>st'. reclaim_loop env st = Some st' \<and> Fin st'
              \<and> sleeps st' \<le> 13 \<and> slept st' = poll_slept (sleeps st')"
  using assms(1,2,3)
proof (induction n arbitrary: k st)
  case 0
  then have k: "k \<le> 12" by simp
  from reclaim_iteration_schedule [OF "0.prems"(1) k, of env]
  obtain again st1 where it: "reclaim_iteration env st = Some (again, st1)"
    and r: "sleeps st1 = Suc k" "slept st1 = poll_slept (Suc k)"
      "again \<longrightarrow> k < 12 \<and> on_schedule (Suc k) st1"
    by blast
  from "0.prems"(2) r(3) have na: "\<not> again" by simp
  from "0.prems"(1) have "next_action st \<le> 5" by (simp add: on_schedule_def)
  from step [OF "0.prems"(3) this it] na have "Fin st1" by simp
  with it r k na show ?case
    by (subst reclaim_loop.simps) simp
next
  case (Suc n)
  then have k: "k \<le> 12" by simp
  from reclaim_iteration_schedule [OF Suc.prems(1) k, of env]
  obtain again st1 where it: "reclaim_iteration env st = Some (again, st1)"
    and r: "sleeps st1 = Suc k" "slept st1 = poll_slept (Suc k)"
      "again \<longrightarrow> k < 12 \<and> on_schedule (Suc k) st1"
    by blast
  from Suc.prems(1) have "next_action st \<le> 5" by (simp add: on_schedule_def)
  from step [OF Suc.prems(3) this it] have inv: "if again then Inv st1 else Fin st1" .
  show ?case
  proof (cases again)
    case True
    with r(3) inv Suc.prems(2) have "on_schedule (Suc k) st1" "Suc k + n = 12" "Inv st1"
      by simp_all
    from Suc.IH [OF this] True it show ?thesis
      by (subst reclaim_loop.simps) simp
  next
    case False
    with inv it r k show ?thesis
      by (subst reclaim_loop.simps) simp
  qed
qed

lemma follows_timeline_snoc:
  "follows_timeline nxt (h @ [(e, c, n)]) =
     (follows_timeline nxt h
      \<and> next_after nxt h < length action_table
      \<and> (if snd (action_table ! next_after nxt h) \<le> e
          then c = next_after nxt h else c = 0))"
  by (induction nxt h rule: follows_timeline.induct) auto

lemma next_after_snoc:
  "next_after nxt (h @ [(e, c, n)]) =
     (if snd (action_table ! next_after nxt h) \<le> e
      then next_after nxt h + 1 else next_after nxt h)"
  by (induction nxt h rule: next_after.induct) auto

lemma taken_entries_snoc:
  "taken_entries (h @ [(e, c, n)]) = taken_entries h @ (if c \<noteq> 0 then [c] else [])"
  by (simp add: taken_entries_def)

lemma timeline_step:
  fixes env :: reclaim_env
  assumes head: "loop_head env s" and sched: "on_schedule k s" and k: "k \<le> 12"
    and it: "reclaim_iteration env s = Some (again, s')"
  shows "(if again then loop_head env s' else loop_exit env s')
         \<and> starttime s' = starttime s"
proof -
  from sched have s: "waittime s = poll_waittime k" "slept s = poll_slept k"
    "next_action s \<le> 5"
    by (simp_all add: on_schedule_def)
  from head have f: "length (history s) = sleeps s" "follows_timeline 1 (history s)"
    "next_action s = next_after 1 (history s)" "list_all poll_not_early (history s)"
    "taken_entries (history s) = [1..<next_action s]" "1 \<le> next_action s"
    "now s - starttime s = slept s + (\<Sum>i<sleeps s. int (sleep_overrun env i))"
    and c: "list_all poll_continues (history s)"
    by (simp_all add: loop_head_def timeline_facts_def)
  define elapsed where
    "elapsed = now s + waittime s + int (sleep_overrun env (sleeps s)) - starttime s"
  define fire where "fire = (snd (action_table ! next_action s) \<le> elapsed)"
  define cur where "cur = (if fire then next_action s else 0)"
  from s(3) have lt: "next_action s < 6" by simp
  from reclaim_iteration_result [OF lt, of env, folded elapsed_def fire_def cur_def]
  obtain st' and ndy :: int where it': "reclaim_iteration env s
            = Some (ndy > 0 \<and> fst (action_table ! cur) \<noteq> GIVEUP, st')"
    and r: "0 \<le> ndy"
      "next_action st' = (if fire then next_action s + 1 else next_action s)"
      "starttime st' = starttime s"
      "now st' = now s + waittime s + int (sleep_overrun env (sleeps s))"
      "sleeps st' = sleeps s + 1"
      "slept st' = slept s + waittime s"
      "history st' = history s @ [(elapsed, cur, ndy)]"
    by blast
  from it it' have again: "again = (ndy > 0 \<and> fst (action_table ! cur) \<noteq> GIVEUP)"
    and s': "s' = st'" by simp_all
  have w0: "0 \<le> poll_waittime k" and sl0: "0 \<le> poll_slept k"
    by (simp_all add: poll_waittime_def poll_slept_def)
  have "0 \<le> (\<Sum>i<sleeps s. int (sleep_overrun env i))" by (simp add: sum_nonneg)
  with f(7) s(1,2) w0 sl0 have e0: "0 \<le> elapsed" by (simp add: elapsed_def)
  have len: "length action_table = 6" by (simp add: action_table_def)
  have thr0: "snd (action_table ! 0) = 0" by (simp add: action_table_def)
  have early: "poll_not_early (elapsed, cur, ndy)"
    using lt e0 by (simp add: poll_not_early_def cur_def fire_def len thr0)
  have facts: "timeline_facts env st'"
    unfolding timeline_facts_def r(7) follows_timeline_snoc next_after_snoc taken_entries_snoc
    using f r(2,3,4,5,6) lt early
    by (auto simp add: len cur_def fire_def elapsed_def)
  show ?thesis
  proof (cases again)
    case True
    then have "poll_continues (elapsed, cur, ndy)" by (simp add: again poll_continues_def)
    with c facts True r(3) show ?thesis by (simp add: s' loop_head_def r(7))
  next
    case False
    with r(1) have "ndy = 0 \<or> fst (action_table ! cur) = GIVEUP" by (auto simp add: again)
    with c facts False r(3) show ?thesis by (simp add: s' loop_exit_def r(7))
  qed
qed

lemma reclaim_start_on_schedule: "on_schedule 0 (reclaim_start t0 sb ex)"
  by (simp add: on_schedule_def reclaim_start_def poll_waittime_def poll_slept_def poll_next_def)

lemma reclaim_start_loop_head: "loop_head env (reclaim_start t0 sb ex)"
  by (simp add: loop_head_def timeline_facts_def reclaim_start_def taken_entries_def)

lemma reclaim_run:
  fixes env :: reclaim_env
  shows "\<exists>st'. ap_reclaim_child_processes env t0 sb ex = Some st'
           \<and> loop_exit env st' \<and> starttime st' = t0
           \<and> sleeps st' \<le> 13 \<and> slept st' = poll_slept (sleeps st')"
proof -
  let ?Inv = "\<lambda>s. (\<exists>k\<le>12. on_schedule k s) \<and> loop_head env s \<and> starttime s = t0"
  let ?Fin = "\<lambda>s. loop_exit env s \<and> starttime s = t0"
  have "\<exists>st'. reclaim_loop env (reclaim_start t0 sb ex) = Some st' \<and> ?Fin st'
          \<and> sleeps st' \<le> 13 \<and> slept st' = poll_slept (sleeps st')"
  proof (rule reclaim_loop_runs [where k = 0 and n = 12 and Inv = ?Inv])
    show "on_schedule 0 (reclaim_start t0 sb ex)" by (rule reclaim_start_on_schedule)
    show "0 + 12 = (12::nat)" by simp
    show "?Inv (reclaim_start t0 sb ex)"
      using reclaim_start_on_schedule [of t0 sb ex] reclaim_start_loop_head [of env t0 sb ex]
      by (auto simp add: reclaim_start_def)
  next
    fix s again s'
    assume inv: "?Inv s" and it: "reclaim_iteration env s = Some (again, s')"
    then obtain k where k: "k \<le> 12" "on_schedule k s" by blast
    from reclaim_iteration_schedule [OF k(2) k(1), of env] it
    have sch: "again \<longrightarrow> k < 12 \<and> on_schedule (Suc k) s'" by auto
    from inv have head: "loop_head env s" and st: "starttime s = t0" by simp_all
    from timeline_step [OF head k(2) k(1) it] st
    have t: "if again then loop_head env s' else loop_exit env s'" "starttime s' = t0"
      by simp_all
    show "if again then ?Inv s' else ?Fin s'"
    proof (cases again)
      case True
      with sch have "Suc k \<le> 12 \<and> on_schedule (Suc k) s'" by simp
      then have "\<exists>j\<le>12. on_schedule j s'" by (rule exI)
      with t True show ?thesis by simp
    next
      case False
      with t show ?thesis by simp
    qed
  qed
  then show ?thesis by (simp add: ap_reclaim_child_processes_def)
qed

lemma poll_slept_bound: "k \<le> 13 \<Longrightarrow> poll_slept k \<le> 10344064"
  by (simp add: poll_slept_def)

lemma poll_events_append:
  "poll_events env a n (xs @ ys) = poll_events env a n xs @ poll_events env a (n + length xs) ys"
  by (induction xs arbitrary: n) simp_all

lemma alive_count_append:
  "alive_count env n (xs @ ys) = alive_count env n xs + alive_count env (n + length xs) ys"
  by (induction xs arbitrary: n) simp_all

text \<open>\<open>reclaim_one_pid\<close> on a worker: one wait, and the action when it is still alive.\<close>

lemma reclaim_one_pid_worker:
  assumes "1 \<le> pid"
  shows "reclaim_one_pid env pid action st
         = ((if still_alive env (waits st) pid then 0 else 1),
            st\<lparr>waits := waits st + 1,
                events := events st @ poll_events env action (waits st) [pid]\<rparr>)"
  using assms
  by (cases action)
    (simp_all add: reclaim_one_pid_def Let_def still_alive_def action_events_def)

lemma reclaim_one_pid_no_worker:
  assumes "pid < 1"
  shows "reclaim_one_pid env pid action st = (1, st)"
  using assms by (simp add: reclaim_one_pid_def)

lemma fold_reclaim_slot:
  assumes "fold (reclaim_slot env action) slots (st, c) = (st', c')"
  shows "events st' = events st
           @ poll_events env action (waits st) (table_workers env (waits st) (scoreboard st) slots)
         \<and> c' = c + int (alive_count env (waits st)
                          (table_workers env (waits st) (scoreboard st) slots))
         \<and> waits st' = waits st + length (table_workers env (waits st) (scoreboard st) slots)
         \<and> extras st' = extras st"
  using assms
proof (induction slots arbitrary: st c)
  case Nil
  then show ?case by simp
next
  case (Cons i slots)
  obtain st1 c1 where s1: "reclaim_slot env action i (st, c) = (st1, c1)"
    by (cases "reclaim_slot env action i (st, c)")
  from Cons.prems s1 have f: "fold (reclaim_slot env action) slots (st1, c1) = (st', c')"
    by simp
  note ih = Cons.IH [OF f]
  let ?pid = "scoreboard st i"
  consider (unused) "?pid = 0" | (insane) "?pid \<noteq> 0" "?pid < 1" | (worker) "1 \<le> ?pid"
    by fastforce
  then show ?case
  proof cases
    case unused
    with s1 have "st1 = st" "c1 = c" by (simp_all add: reclaim_slot_def)
    with ih unused show ?thesis by simp
  next
    case insane
    with s1 have "st1 = st\<lparr>scoreboard := note_child_killed env i (scoreboard st)\<rparr>" "c1 = c"
      by (simp_all add: reclaim_slot_def Let_def reclaim_one_pid_no_worker)
    with ih insane show ?thesis by simp
  next
    case worker
    then have nz: "?pid \<noteq> 0" "\<not> ?pid < 1" by simp_all
    let ?st2 = "st\<lparr>waits := waits st + 1,
                   events := events st @ poll_events env action (waits st) [?pid]\<rparr>"
    show ?thesis
    proof (cases "still_alive env (waits st) ?pid")
      case True
      with s1 worker nz have "st1 = ?st2" "c1 = c + 1"
        by (simp_all add: reclaim_slot_def Let_def reclaim_one_pid_worker)
      with ih worker nz True show ?thesis by simp
    next
      case False
      with s1 worker nz have
        "st1 = ?st2\<lparr>scoreboard := note_child_killed env i (scoreboard st)\<rparr>" "c1 = c"
        by (simp_all add: reclaim_slot_def Let_def reclaim_one_pid_worker)
      with ih worker nz False show ?thesis by simp
    qed
  qed
qed

text \<open>With an MPM that keeps to its slot, the workers found are those of the scoreboard.\<close>

lemma table_workers_frame:
  assumes "table_frame env" and "sorted_wrt (<) slots"
  shows "table_workers env n sb slots = filter (\<lambda>pid. 1 \<le> pid) (map sb slots)"
  using assms(2)
proof (induction slots arbitrary: n sb)
  case Nil
  then show ?case by simp
next
  case (Cons i slots)
  then have gt: "\<forall>j\<in>set slots. i < j" and srt: "sorted_wrt (<) slots" by simp_all
  have frame: "map (note_child_killed env i sb) slots = map sb slots"
    using gt assms(1) by (auto simp add: table_frame_def)
  show ?case
    by (simp add: Cons.IH [OF srt] frame)
qed

lemma known_workers_frame:
  assumes "table_frame env"
  shows "known_workers env st
         = filter (\<lambda>pid. 1 \<le> pid) (map (scoreboard st) [0..<max_daemons env] @ extras st)"
proof -
  have "sorted_wrt (<) [0..<max_daemons env]" by simp
  from table_workers_frame [OF assms this] show ?thesis by (simp add: known_workers_def)
qed

lemma fold_reclaim_extra:
  assumes "fold (reclaim_extra env action) pids (st, c) = (st', c')"
  shows "events st' = events st
           @ poll_events env action (waits st) (filter (\<lambda>pid. 1 \<le> pid) pids)
         \<and> c' = c + int (alive_count env (waits st) (filter (\<lambda>pid. 1 \<le> pid) pids))
         \<and> waits st' = waits st + length (filter (\<lambda>pid. 1 \<le> pid) pids)"
  using assms
proof (induction pids arbitrary: st c)
  case Nil
  then show ?case by simp
next
  case (Cons pid pids)
  obtain st1 c1 where s1: "reclaim_extra env action pid (st, c) = (st1, c1)"
    by (cases "reclaim_extra env action pid (st, c)")
  from Cons.prems s1 have f: "fold (reclaim_extra env action) pids (st1, c1) = (st', c')"
    by simp
  note ih = Cons.IH [OF f]
  show ?case
  proof (cases "1 \<le> pid")
    case True
    from s1 True have
      e1: "events st1 = events st @ poll_events env action (waits st) [pid]"
      and w1: "waits st1 = waits st + 1"
      and c1: "c1 = c + (if still_alive env (waits st) pid then 1 else 0)"
      by (auto simp add: reclaim_extra_def Let_def reclaim_one_pid_worker split: if_splits)
    from ih e1 w1 c1 True show ?thesis by simp
  next
    case False
    then have lt: "pid < 1" by simp
    from s1 lt have
      e1: "events st1 = events st" and w1: "waits st1 = waits st" and c1: "c1 = c"
      by (auto simp add: reclaim_extra_def Let_def reclaim_one_pid_no_worker split: if_splits)
    from ih e1 w1 c1 False show ?thesis by simp
  qed
qed

text \<open>A pass over the children visits the known workers in order.\<close>

lemma reclaim_pass_workers:
  assumes "reclaim_pass env action st = (st', ndy)"
  shows "events st' = events st @ poll_events env action (waits st) (known_workers env st)
         \<and> ndy = int (alive_count env (waits st) (known_workers env st))"
proof -
  obtain st1 c1 where a: "fold (reclaim_slot env action) [0..<max_daemons env] (st, 0) = (st1, c1)"
    by (cases "fold (reclaim_slot env action) [0..<max_daemons env] (st, 0)")
  with assms have b: "fold (reclaim_extra env action) (extras st1) (st1, c1) = (st', ndy)"
    by (simp add: reclaim_pass_def Let_def)
  note r1 = fold_reclaim_slot [OF a]
  note r2 = fold_reclaim_extra [OF b]
  from r1 r2 show ?thesis
    by (simp add: known_workers_def poll_events_append alive_count_append)
qed

text \<open>One iteration of the loop is one poll of the specification.\<close>

lemma reclaim_iteration_poll:
  assumes it: "reclaim_iteration env st = Some (again, st2)"
  shows "poll_applies env st st2 \<and> again = poll_goes_on env st"
proof -
  define st3 where "st3 =
    (let st1 = st\<lparr>now := now st + waittime st + int (sleep_overrun env (sleeps st)),
                    sleeps := sleeps st + 1,
                    slept := slept st + waittime st\<rparr>;
         w = waittime st1 * 4;
         st2 = st1\<lparr>waittime := (if w > apr_time_from_sec 1 then apr_time_from_sec 1 else w)\<rparr>
     in if poll_due env st then st2\<lparr>next_action := next_action st2 + 1\<rparr> else st2)"
  define pass where "pass = reclaim_pass env (poll_action env st) st3"
  from it have lt: "next_action st < length action_table"
    by (auto simp add: reclaim_iteration_def Let_def split: if_splits)
  have it': "reclaim_iteration env st
     = Some (snd pass > 0 \<and> poll_action env st \<noteq> GIVEUP,
             (fst pass)\<lparr>history := history (fst pass)
                @ [(poll_elapsed env st, poll_entry env st, snd pass)]\<rparr>)"
    using lt
    by (simp add: reclaim_iteration_def Let_def poll_elapsed_def poll_due_def poll_entry_def
        poll_action_def split_beta pass_def st3_def)
  have st3: "events st3 = events st" "waits st3 = waits st" "history st3 = history st"
    "known_workers env st3 = known_workers env st"
    "next_action st3 = (if poll_due env st then next_action st + 1 else next_action st)"
    by (simp_all add: st3_def Let_def known_workers_def)
  have p: "reclaim_pass env (poll_action env st) st3 = (fst pass, snd pass)"
    by (simp add: pass_def)
  from reclaim_pass_workers [OF p] st3
  have w: "events (fst pass) = events st
             @ poll_events env (poll_action env st) (waits st) (known_workers env st)"
    "snd pass = int (alive_count env (waits st) (known_workers env st))"
    by simp_all
  from reclaim_pass_inv [of st3 env "poll_action env st"]
  have t: "history (fst pass) = history st" "next_action (fst pass) = next_action st3"
    by (simp_all add: pass_def same_timing_def st3)
  from it it' have a: "again = (snd pass > 0 \<and> poll_action env st \<noteq> GIVEUP)"
    and s: "st2 = (fst pass)\<lparr>history := history (fst pass)
                @ [(poll_elapsed env st, poll_entry env st, snd pass)]\<rparr>"
    by simp_all
  from a w(2) have "again = poll_goes_on env st" by (simp add: poll_goes_on_def)
  moreover from s w t st3(5) have "poll_applies env st st2" by (simp add: poll_applies_def)
  ultimately show ?thesis by simp
qed

lemma after_polls_Suc:
  assumes "after_polls env k st0 = Some s" and "reclaim_iteration env s = Some (True, s')"
  shows "after_polls env (Suc k) st0 = Some s'"
  using assms by simp

lemma after_polls_before:
  assumes "after_polls env n st0 = Some s" and "k < n"
  shows "\<exists>sk sk'. after_polls env k st0 = Some sk
           \<and> reclaim_iteration env sk = Some (True, sk')"
  using assms
proof (induction n arbitrary: s)
  case 0
  then show ?case by simp
next
  case (Suc n)
  from Suc.prems(1) obtain sn where sn: "after_polls env n st0 = Some sn"
    and it: "reclaim_iteration env sn = Some (True, s)"
    by (auto split: option.splits if_splits)
  show ?case
  proof (cases "k = n")
    case True
    with sn it show ?thesis by blast
  next
    case False
    with Suc.prems(2) have "k < n" by simp
    from Suc.IH [OF sn this] show ?thesis .
  qed
qed

text \<open>
  The run: it returns after \<open>n + 1\<close> polls, \<open>n\<close> at most 12. The first \<open>n\<close> polls found
  the loop condition true, and the last one did not and left the final state.
\<close>

lemma reclaim_run_polls:
  fixes env :: reclaim_env
  shows "\<exists>n st'. ap_reclaim_child_processes env t0 sb ex = Some st'
           \<and> loop_exit env st' \<and> starttime st' = t0
           \<and> sleeps st' \<le> 13 \<and> slept st' = poll_slept (sleeps st')
           \<and> sleeps st' = Suc n
           \<and> (\<forall>k\<le>n. \<exists>s s'. after_polls env k (reclaim_start t0 sb ex) = Some s
                  \<and> reclaim_iteration env s = Some (k < n, s')
                  \<and> (k = n \<longrightarrow> s' = st'))"
proof -
  let ?st0 = "reclaim_start t0 sb ex"
  let ?Inv = "\<lambda>s. (\<exists>k\<le>12. on_schedule k s \<and> after_polls env k ?st0 = Some s)
                 \<and> loop_head env s \<and> starttime s = t0"
  let ?Fin = "\<lambda>s'. loop_exit env s' \<and> starttime s' = t0
                 \<and> (\<exists>n s. after_polls env n ?st0 = Some s \<and> sleeps s' = Suc n
                       \<and> reclaim_iteration env s = Some (False, s'))"
  have "\<exists>st'. reclaim_loop env ?st0 = Some st' \<and> ?Fin st'
          \<and> sleeps st' \<le> 13 \<and> slept st' = poll_slept (sleeps st')"
  proof (rule reclaim_loop_runs [where k = 0 and n = 12 and Inv = ?Inv])
    show "on_schedule 0 ?st0" by (rule reclaim_start_on_schedule)
    show "0 + 12 = (12::nat)" by simp
    have "on_schedule 0 ?st0 \<and> after_polls env 0 ?st0 = Some ?st0"
      by (simp add: reclaim_start_on_schedule)
    then have "\<exists>k\<le>12. on_schedule k ?st0 \<and> after_polls env k ?st0 = Some ?st0"
      by (intro exI [of _ 0]) simp
    moreover have "starttime ?st0 = t0" by (simp add: reclaim_start_def)
    ultimately show "?Inv ?st0"
      using reclaim_start_loop_head [of env t0 sb ex] by simp
  next
    fix s again s'
    assume inv: "?Inv s" and it: "reclaim_iteration env s = Some (again, s')"
    then obtain k where k: "k \<le> 12" "on_schedule k s" "after_polls env k ?st0 = Some s"
      by blast
    from reclaim_iteration_schedule [OF k(2) k(1), of env] it
    have sch: "again \<longrightarrow> k < 12 \<and> on_schedule (Suc k) s'" and sl: "sleeps s' = Suc k"
      by auto
    from inv have head: "loop_head env s" and st: "starttime s = t0" by simp_all
    from timeline_step [OF head k(2) k(1) it] st
    have t: "if again then loop_head env s' else loop_exit env s'" "starttime s' = t0"
      by simp_all
    show "if again then ?Inv s' else ?Fin s'"
    proof (cases again)
      case True
      with it k(3) have "after_polls env (Suc k) ?st0 = Some s'" by simp
      with sch True have "Suc k \<le> 12 \<and> on_schedule (Suc k) s'
          \<and> after_polls env (Suc k) ?st0 = Some s'" by simp
      then have "\<exists>j\<le>12. on_schedule j s' \<and> after_polls env j ?st0 = Some s'" by (rule exI)
      with t True show ?thesis by simp
    next
      case False
      with it have "reclaim_iteration env s = Some (False, s')" by simp
      with k(3) sl have "after_polls env k ?st0 = Some s \<and> sleeps s' = Suc k
                       \<and> reclaim_iteration env s = Some (False, s')" by simp
      then have "\<exists>n s. after_polls env n ?st0 = Some s \<and> sleeps s' = Suc n
                       \<and> reclaim_iteration env s = Some (False, s')" by blast
      with t False show ?thesis by simp
    qed
  qed
  then obtain st' n s where r: "reclaim_loop env ?st0 = Some st'" "loop_exit env st'"
    "starttime st' = t0" "sleeps st' \<le> 13" "slept st' = poll_slept (sleeps st')"
    "after_polls env n ?st0 = Some s" "sleeps st' = Suc n"
    "reclaim_iteration env s = Some (False, st')"
    by blast
  have "\<exists>s s'. after_polls env k ?st0 = Some s
                  \<and> reclaim_iteration env s = Some (k < n, s')
                  \<and> (k = n \<longrightarrow> s' = st')" if "k \<le> n" for k
  proof (cases "k = n")
    case True
    with r(6,8) show ?thesis by simp
  next
    case False
    with that have "k < n" by simp
    from after_polls_before [OF r(6) this] False \<open>k < n\<close> show ?thesis by auto
  qed
  with r show ?thesis
    by (auto simp add: ap_reclaim_child_processes_def)
qed


text \<open>
  C6: for every scoreboard and list of extra processes, whatever the children do and
  however long the sleeps overrun, the reclaim loop returns. It polls at most 13
  times and asks \<open>apr_sleep\<close> for at most 10344064 microseconds in total, so it ends no
  later than 10.344064 seconds plus the overrun of its sleeps after it started. Every
  poll but the last saw a child alive and did not give up; the last poll saw no child
  alive or applied the give-up action. This is said of the workers themselves: at
  every poll but the last, \<open>apr_proc_wait\<close> found a known worker (a scoreboard pid or
  an extra process) still running and the action of the poll was not give-up; at the
  last poll it found none, or the action was give-up.
\<close>

theorem C6_reclaim_terminates:
  fixes env :: reclaim_env
  shows "\<exists>n st'. ap_reclaim_child_processes env t0 sb ex = Some st'
           \<and> length (history st') = sleeps st' \<and> sleeps st' \<le> 13
           \<and> slept st' \<le> 10344064
           \<and> now st' - t0 = slept st' + (\<Sum>i<sleeps st'. int (sleep_overrun env i))
           \<and> history st' \<noteq> []
           \<and> list_all poll_continues (butlast (history st'))
           \<and> (case last (history st') of
                 (elapsed, cur, ndy) \<Rightarrow> ndy = 0 \<or> fst (action_table ! cur) = GIVEUP)
           \<and> sleeps st' = Suc n
           \<and> (\<forall>k\<le>n. \<exists>s s'. after_polls env k (reclaim_start t0 sb ex) = Some s
                  \<and> reclaim_iteration env s = Some (k < n, s')
                  \<and> (k = n \<longrightarrow> s' = st')
                  \<and> (k < n) = poll_goes_on env s)"
proof -
  from reclaim_run_polls [of env t0 sb ex] obtain n st' where
    r: "ap_reclaim_child_processes env t0 sb ex = Some st'" "loop_exit env st'"
      "starttime st' = t0" "sleeps st' \<le> 13" "slept st' = poll_slept (sleeps st')"
      "sleeps st' = Suc n"
    and p: "\<forall>k\<le>n. \<exists>s s'. after_polls env k (reclaim_start t0 sb ex) = Some s
                  \<and> reclaim_iteration env s = Some (k < n, s')
                  \<and> (k = n \<longrightarrow> s' = st')"
    by blast
  from r(4,5) have b: "slept st' \<le> 10344064" by (simp add: poll_slept_bound)
  have q: "\<exists>s s'. after_polls env k (reclaim_start t0 sb ex) = Some s
                    \<and> reclaim_iteration env s = Some (k < n, s')
                    \<and> (k = n \<longrightarrow> s' = st')
                    \<and> (k < n) = poll_goes_on env s"
    if k: "k \<le> n" for k
  proof -
    from p k obtain s s' where
      s: "after_polls env k (reclaim_start t0 sb ex) = Some s"
        "reclaim_iteration env s = Some (k < n, s')" "k = n \<longrightarrow> s' = st'"
      by blast
    from reclaim_iteration_poll [OF s(2)] have "(k < n) = poll_goes_on env s" by simp
    with s show ?thesis by blast
  qed
  from r b have "ap_reclaim_child_processes env t0 sb ex = Some st'
           \<and> length (history st') = sleeps st' \<and> sleeps st' \<le> 13
           \<and> slept st' \<le> 10344064
           \<and> now st' - t0 = slept st' + (\<Sum>i<sleeps st'. int (sleep_overrun env i))
           \<and> history st' \<noteq> []
           \<and> list_all poll_continues (butlast (history st'))
           \<and> (case last (history st') of
                 (elapsed, cur, ndy) \<Rightarrow> ndy = 0 \<or> fst (action_table ! cur) = GIVEUP)
           \<and> sleeps st' = Suc n"
    by (auto simp add: loop_exit_def timeline_facts_def)
  moreover have "\<forall>k\<le>n. \<exists>s s'. after_polls env k (reclaim_start t0 sb ex) = Some s
                    \<and> reclaim_iteration env s = Some (k < n, s')
                    \<and> (k = n \<longrightarrow> s' = st')
                    \<and> (k < n) = poll_goes_on env s"
    using q by blast
  ultimately show ?thesis
    by (intro exI [of _ n] exI [of _ st']) (elim conjE, intro conjI, assumption+)
qed


lemma table_frame_stubborn: "table_frame stubborn_env"
  "table_frame mixed_env" "table_frame leaving_env"
  by (simp_all add: table_frame_def stubborn_env_def mixed_env_def leaving_env_def)


lemma mixed_run_events:
  "map_option events (ap_reclaim_child_processes mixed_env 5000 one_worker [300, 200])
   = Some [ChildStatus 300,
      LogChild APLOG_WARNING 100 ''still did not exit, sending a SIGTERM'', Kill 100 SIGTERM,
      LogChild APLOG_WARNING 200 ''still did not exit, sending a SIGTERM'', Kill 200 SIGTERM,
      LogChild APLOG_WARNING 100 ''still did not exit, sending a SIGTERM'', Kill 100 SIGTERM,
      LogChild APLOG_WARNING 200 ''still did not exit, sending a SIGTERM'', Kill 200 SIGTERM,
      LogChild APLOG_WARNING 100 ''still did not exit, sending a SIGTERM'', Kill 100 SIGTERM,
      LogChild APLOG_WARNING 200 ''still did not exit, sending a SIGTERM'', Kill 200 SIGTERM,
      LogChild APLOG_ERR 100 ''still did not exit, sending a SIGKILL'', Kill 100 SIGKILL,
      LogChild APLOG_ERR 200 ''still did not exit, sending a SIGKILL'', Kill 200 SIGKILL,
      LogChild APLOG_ERR 100
        ''could not make child process exit, attempting to continue anyway'',
      LogChild APLOG_ERR 200
        ''could not make child process exit, attempting to continue anyway'']"
  by code_simp



lemma stubborn_run_history:
  "map_option history (ap_reclaim_child_processes stubborn_env 5000 one_worker [])
   = Some [(16384, 0, 1), (81920, 0, 1), (344064, 0, 1), (1344064, 0, 1),
           (2344064, 0, 1), (3344064, 1, 1), (4344064, 0, 1), (5344064, 2, 1),
           (6344064, 0, 1), (7344064, 3, 1), (8344064, 0, 1), (9344064, 4, 1),
           (10344064, 5, 1)]"
  by code_simp

lemma stubborn_run_counts:
  "map_option sleeps (ap_reclaim_child_processes stubborn_env 5000 one_worker []) = Some 13"
  "map_option slept (ap_reclaim_child_processes stubborn_env 5000 one_worker [])
     = Some 10344064"
  "map_option now (ap_reclaim_child_processes stubborn_env 5000 one_worker [])
     = Some 10349064"
  "map_option next_action (ap_reclaim_child_processes stubborn_env 5000 one_worker [])
     = Some 6"
  by code_simp+

lemma leaving_run:
  "map_option (\<lambda>s. (history s, events s, sleeps s, slept s))
     (ap_reclaim_child_processes leaving_env 5000 one_worker [])
   = Some ([(16384, 0, 1), (81920, 0, 1), (344064, 0, 0)], [ChildStatus 100], 3, 344064)"
  by code_simp

lemma final_polls:
  "map_option (\<lambda>s. (alive_count leaving_env (waits s) (known_workers leaving_env s),
       poll_action leaving_env s))
     (after_polls leaving_env 2 (reclaim_start 5000 one_worker []))
   = Some (0, DO_NOTHING)"
  "map_option (\<lambda>s. (alive_count stubborn_env (waits s) (known_workers stubborn_env s),
       poll_action stubborn_env s))
     (after_polls stubborn_env 12 (reclaim_start 5000 one_worker []))
   = Some (1, GIVEUP)"
  by code_simp+


theorem C6_reclaim_terminates_witness:
  "(\<exists>st'. ap_reclaim_child_processes stubborn_env 5000 one_worker [] = Some st'
        \<and> sleeps st' = 13 \<and> slept st' = 10344064 \<and> now st' - 5000 = 10344064
        \<and> last (history st') = (10344064, 5, 1)
        \<and> fst (action_table ! 5) = GIVEUP
        \<and> (\<exists>s. after_polls stubborn_env 12 (reclaim_start 5000 one_worker []) = Some s
              \<and> reclaim_iteration stubborn_env s = Some (False, st')
              \<and> alive_count stubborn_env (waits s) (known_workers stubborn_env s) = 1
              \<and> poll_action stubborn_env s = GIVEUP))
   \<and> (\<exists>st'. ap_reclaim_child_processes leaving_env 5000 one_worker [] = Some st'
        \<and> sleeps st' = 3 \<and> slept st' = 344064
        \<and> history st' = [(16384, 0, 1), (81920, 0, 1), (344064, 0, 0)]
        \<and> events st' = [ChildStatus 100]
        \<and> (\<exists>s. after_polls leaving_env 2 (reclaim_start 5000 one_worker []) = Some s
              \<and> reclaim_iteration leaving_env s = Some (False, st')
              \<and> alive_count leaving_env (waits s) (known_workers leaving_env s) = 0))"
proof -
  from C6_reclaim_terminates [of stubborn_env 5000 one_worker "[]"]
  obtain n st' where
    r: "ap_reclaim_child_processes stubborn_env 5000 one_worker [] = Some st'"
      "sleeps st' = Suc n"
    and p: "\<forall>k\<le>n. \<exists>s s'. after_polls stubborn_env k (reclaim_start 5000 one_worker []) = Some s
                    \<and> reclaim_iteration stubborn_env s = Some (k < n, s')
                    \<and> (k = n \<longrightarrow> s' = st')
                    \<and> (k < n) = poll_goes_on stubborn_env s"
    by blast
  from r(1) stubborn_run_history stubborn_run_counts
  have v: "sleeps st' = 13" "slept st' = 10344064" "now st' = 10349064"
    "last (history st') = (10344064, 5, 1)"
    by simp_all
  from v(1) r(2) have n: "n = 12" by simp
  from p [rule_format, of 12] n obtain s where
    s: "after_polls stubborn_env 12 (reclaim_start 5000 one_worker []) = Some s"
      "reclaim_iteration stubborn_env s = Some (False, st')"
    by auto
  from final_polls(2) [unfolded s(1)]
  have "alive_count stubborn_env (waits s) (known_workers stubborn_env s) = 1"
    "poll_action stubborn_env s = GIVEUP"
    by simp_all
  with r v s have a: "\<exists>st'. ap_reclaim_child_processes stubborn_env 5000 one_worker [] = Some st'
        \<and> sleeps st' = 13 \<and> slept st' = 10344064 \<and> now st' - 5000 = 10344064
        \<and> last (history st') = (10344064, 5, 1)
        \<and> fst (action_table ! 5) = GIVEUP
        \<and> (\<exists>s. after_polls stubborn_env 12 (reclaim_start 5000 one_worker []) = Some s
              \<and> reclaim_iteration stubborn_env s = Some (False, st')
              \<and> alive_count stubborn_env (waits s) (known_workers stubborn_env s) = 1
              \<and> poll_action stubborn_env s = GIVEUP)"
    by (simp add: action_table_entries)
  from C6_reclaim_terminates [of leaving_env 5000 one_worker "[]"]
  obtain m st2 where
    r2: "ap_reclaim_child_processes leaving_env 5000 one_worker [] = Some st2"
      "sleeps st2 = Suc m"
    and p2: "\<forall>k\<le>m. \<exists>s s'. after_polls leaving_env k (reclaim_start 5000 one_worker []) = Some s
                    \<and> reclaim_iteration leaving_env s = Some (k < m, s')
                    \<and> (k = m \<longrightarrow> s' = st2)
                    \<and> (k < m) = poll_goes_on leaving_env s"
    by blast
  from r2(1) leaving_run
  have v2: "history st2 = [(16384, 0, 1), (81920, 0, 1), (344064, 0, 0)]"
    "events st2 = [ChildStatus 100]" "sleeps st2 = 3" "slept st2 = 344064"
    by simp_all
  from v2(3) r2(2) have m: "m = 2" by simp
  from p2 [rule_format, of 2] m obtain s2 where
    s2: "after_polls leaving_env 2 (reclaim_start 5000 one_worker []) = Some s2"
      "reclaim_iteration leaving_env s2 = Some (False, st2)"
    by auto
  from final_polls(1) [unfolded s2(1)]
  have "alive_count leaving_env (waits s2) (known_workers leaving_env s2) = 0"
    by simp
  with r2 v2 s2 have b: "\<exists>st'. ap_reclaim_child_processes leaving_env 5000 one_worker [] = Some st'
        \<and> sleeps st' = 3 \<and> slept st' = 344064
        \<and> history st' = [(16384, 0, 1), (81920, 0, 1), (344064, 0, 0)]
        \<and> events st' = [ChildStatus 100]
        \<and> (\<exists>s. after_polls leaving_env 2 (reclaim_start 5000 one_worker []) = Some s
              \<and> reclaim_iteration leaving_env s = Some (False, st')
              \<and> alive_count leaving_env (waits s) (known_workers leaving_env s) = 0)"
    by simp
  from a b show ?thesis by blast
qed


section \<open>Theorems: the channel, writing\<close>

lemma size_sub_le:
  assumes "b \<le> a" and "a < 2 ^ 64"
  shows "size_sub a b = a - b"
proof -
  from assms have b: "b mod (2::nat) ^ 64 = b" by (intro mod_less) simp
  have "size_sub a b = (a + 2 ^ 64 - b) mod 2 ^ 64"
    unfolding size_sub_def b ..
  also from assms have "a + 2 ^ 64 - b = (a - b) + 2 ^ 64" by simp
  also have "((a - b) + 2 ^ 64) mod 2 ^ 64 = (a - b) mod (2::nat) ^ 64"
    by (simp only: mod_add_self2)
  also from assms have "\<dots> = a - b" by (intro mod_less) simp
  finally show ?thesis .
qed

lemma size_wrap_id: "n < 2 ^ 64 \<Longrightarrow> size_wrap n = n"
  by (simp add: size_wrap_def)

lemma chunk_bytes_append: "chunk_bytes buf (xs @ ys) = chunk_bytes buf xs @ chunk_bytes buf ys"
  by (simp add: chunk_bytes_def)

lemma bucketeer_chunks_bytes:
  "chunk_bytes buf (bucketeer_chunks n data ws) = take (n * ws) (drop data buf)"
proof (induction n arbitrary: data)
  case 0
  then show ?case by (simp add: chunk_bytes_def)
next
  case (Suc n)
  have "chunk_bytes buf (bucketeer_chunks (Suc n) data ws)
        = take ws (drop data buf) @ chunk_bytes buf (bucketeer_chunks n (data + ws) ws)"
    by (simp add: chunk_bytes_def on_wire_def wire_bytes_of_def)
  also have "\<dots> = take ws (drop data buf) @ take (n * ws) (drop ws (drop data buf))"
    by (simp add: Suc.IH add.commute)
  also have "\<dots> = take (ws + n * ws) (drop data buf)"
    by (simp add: take_add)
  finally show ?case by simp
qed

lemma bucketeer_chunks_length: "brigade_length (bucketeer_chunks n data ws) = n * ws"
  by (induction n arbitrary: data) (simp_all add: brigade_length_def bucket_length_def)


lemma wire_bytes_snoc: "wire_bytes (tr @ [e]) = wire_bytes tr @ event_bytes e"
  by (simp add: wire_bytes_def)

lemma tune_replay_snoc: "tune_replay (tr @ [e]) = tune_step (tune_replay tr) e"
  by (simp add: tune_replay_def)

lemma tune_inv_frame:
  "tune_inv (io\<lparr>io_output := a\<rparr>) w = tune_inv io w"
  "tune_inv (io\<lparr>buflen := b\<rparr>) w = tune_inv io w"
  "tune_inv (io\<lparr>buffer := c\<rparr>) w = tune_inv io w"
  "tune_inv (io\<lparr>unflushed := d\<rparr>) w = tune_inv io w"
  "tune_inv (io\<lparr>io_input := e\<rparr>) w = tune_inv io w"
  "tune_inv io (w\<lparr>calls := n\<rparr>) = tune_inv io w"
  by (simp_all add: tune_inv_def split: option.splits)

lemma mod_ge_imp_ge: "(k::nat) \<le> n mod m \<Longrightarrow> k \<le> n"
  by (rule order_trans [OF _ mod_less_eq_dividend])

text \<open>The tuning keeps the write size at one of its two values and satisfies the monitor.\<close>

lemma tune_write_size_result:
  assumes ws: "write_size io = WRITE_SIZE_INITIAL \<or> write_size io = WRITE_SIZE_MAX"
    and tw: "tune_write_size env io w = (io1, w1)"
  shows "io1 = io\<lparr>write_size := write_size io1, bytes_written := bytes_written io1\<rparr>"
    and "write_size io1 = WRITE_SIZE_INITIAL \<or> write_size io1 = WRITE_SIZE_MAX"
    and "wire_bytes (trace w1) = wire_bytes (trace w)"
    and "tune_inv io w \<Longrightarrow> tune_inv io1 w1"
proof -
  define reads_clock where "reads_clock = (write_size io > WRITE_SIZE_INITIAL)"
  define t where "t = time_now env (calls w)"
  define w0 where "w0 = (if reads_clock then w\<lparr>calls := calls w + 1\<rparr> else w)"
  have tr0: "trace w0 = trace w" by (simp add: w0_def)
  consider (reset) "reads_clock \<and> t - last_write io \<ge> WRITE_SIZE_IDLE_USEC"
    | (grow) "\<not> (reads_clock \<and> t - last_write io \<ge> WRITE_SIZE_IDLE_USEC)"
        "write_size io < WRITE_SIZE_MAX \<and> bytes_written io \<ge> WRITE_SIZE_THRESHOLD"
    | (same) "\<not> (reads_clock \<and> t - last_write io \<ge> WRITE_SIZE_IDLE_USEC)"
        "\<not> (write_size io < WRITE_SIZE_MAX \<and> bytes_written io \<ge> WRITE_SIZE_THRESHOLD)"
    by blast
  then have "io1 = io\<lparr>write_size := write_size io1, bytes_written := bytes_written io1\<rparr>
     \<and> (write_size io1 = WRITE_SIZE_INITIAL \<or> write_size io1 = WRITE_SIZE_MAX)
     \<and> wire_bytes (trace w1) = wire_bytes (trace w)
     \<and> (tune_inv io w \<longrightarrow> tune_inv io1 w1)"
  proof cases
    case reset
    then have "tune_write_size env io w
        = (io\<lparr>write_size := WRITE_SIZE_INITIAL, bytes_written := 0\<rparr>,
           w0\<lparr>trace := trace w0 @ [WriteSizeReset t WRITE_SIZE_INITIAL]\<rparr>)"
      by (simp add: tune_write_size_def Let_def reads_clock_def t_def w0_def)
    with tw have r: "io1 = io\<lparr>write_size := WRITE_SIZE_INITIAL, bytes_written := 0\<rparr>"
      "w1 = w0\<lparr>trace := trace w0 @ [WriteSizeReset t WRITE_SIZE_INITIAL]\<rparr>"
      by simp_all
    have "tune_inv io1 w1" if inv: "tune_inv io w"
    proof -
      from inv obtain wsz cum lp where
        rp: "tune_replay (trace w) = Some (wsz, cum, lp)"
        and f: "write_size io = wsz" "bytes_written io = cum mod 2 ^ 64"
          "case lp of None \<Rightarrow> last_write io = 0 \<and> wsz = 1300 \<and> cum = 0
           | Some t \<Rightarrow> last_write io = t"
        by (auto simp add: tune_inv_def split: option.splits)
      from reset f(1,3) obtain tp where l: "lp = Some tp" "last_write io = tp"
        by (cases lp) (auto simp add: reads_clock_def WRITE_SIZE_INITIAL_def)
      from reset f(1) have big: "1300 < wsz"
        by (simp add: reads_clock_def WRITE_SIZE_INITIAL_def)
      from reset l have "t - tp \<ge> 1000000" by (simp add: WRITE_SIZE_IDLE_USEC_def)
      with rp l big show ?thesis
        by (simp add: tune_inv_def r tr0 tune_replay_snoc tune_step_def WRITE_SIZE_INITIAL_def)
    qed
    then show ?thesis
      by (simp add: r tr0 wire_bytes_snoc event_bytes_def)
  next
    case grow
    then have "tune_write_size env io w
        = (io\<lparr>write_size := WRITE_SIZE_MAX\<rparr>,
           w0\<lparr>trace := trace w0 @ [WriteSizeMax WRITE_SIZE_MAX]\<rparr>)"
      by (auto simp add: tune_write_size_def Let_def reads_clock_def t_def w0_def)
    with tw have r: "io1 = io\<lparr>write_size := WRITE_SIZE_MAX\<rparr>"
      "w1 = w0\<lparr>trace := trace w0 @ [WriteSizeMax WRITE_SIZE_MAX]\<rparr>"
      by simp_all
    have "tune_inv io1 w1" if inv: "tune_inv io w"
    proof -
      from inv obtain wsz cum lp where
        rp: "tune_replay (trace w) = Some (wsz, cum, lp)"
        and f: "write_size io = wsz" "bytes_written io = cum mod 2 ^ 64"
          "case lp of None \<Rightarrow> last_write io = 0 \<and> wsz = 1300 \<and> cum = 0
           | Some t \<Rightarrow> last_write io = t"
        by (auto simp add: tune_inv_def split: option.splits)
      from grow(2) f(2) have "1048576 \<le> cum mod 2 ^ 64"
        by (simp add: WRITE_SIZE_THRESHOLD_def)
      then have c: "1048576 \<le> cum" by (rule mod_ge_imp_ge)
      with f(3) obtain tp where l: "lp = Some tp" "last_write io = tp"
        by (cases lp) auto
      from grow(2) f(1) have "wsz < 16384" by (simp add: WRITE_SIZE_MAX_def)
      with rp l c f(2) show ?thesis
        by (simp add: tune_inv_def r tr0 tune_replay_snoc tune_step_def WRITE_SIZE_MAX_def)
    qed
    then show ?thesis
      by (simp add: r tr0 wire_bytes_snoc event_bytes_def)
  next
    case same
    then have "tune_write_size env io w = (io, w0)"
      by (auto simp add: tune_write_size_def Let_def reads_clock_def t_def w0_def)
    with tw have r: "io1 = io" "w1 = w0" by simp_all
    with ws show ?thesis by (simp add: tr0 tune_inv_def)
  qed
  then show "io1 = io\<lparr>write_size := write_size io1, bytes_written := bytes_written io1\<rparr>"
    and "write_size io1 = WRITE_SIZE_INITIAL \<or> write_size io1 = WRITE_SIZE_MAX"
    and "wire_bytes (trace w1) = wire_bytes (trace w)"
    and "tune_inv io w \<Longrightarrow> tune_inv io1 w1"
    by simp_all
qed

text \<open>\<open>bucketeer_buffer\<close>: the chunks it appends are the staged bytes, in order.\<close>

lemma bucketeer_buffer_result:
  assumes ws: "write_size io = WRITE_SIZE_INITIAL \<or> write_size io = WRITE_SIZE_MAX"
  shows "\<exists>io' w' cs. bucketeer_buffer env io w = Some (io', w')
           \<and> io' = io\<lparr>write_size := write_size io', bytes_written := bytes_written io',
                       io_output := io_output io @ cs\<rparr>
           \<and> chunk_bytes (buffer io) cs = take (buflen io) (buffer io)
           \<and> brigade_length cs = buflen io
           \<and> (write_size io' = WRITE_SIZE_INITIAL \<or> write_size io' = WRITE_SIZE_MAX)
           \<and> wire_bytes (trace w') = wire_bytes (trace w)
           \<and> (tune_inv io w \<longrightarrow> tune_inv io' w')"
proof -
  obtain io1 w1 where tw: "tune_write_size env io w = (io1, w1)"
    by (cases "tune_write_size env io w")
  note t = tune_write_size_result [OF ws tw]
  define q where "q = (buflen io div write_size io1) mod 2 ^ 32"
  define bcount where "bcount = (if q < 2 ^ 31 then q else 0)"
  define rem' where "rem' = buflen io - bcount * write_size io1"
  define cs where "cs = bucketeer_chunks bcount 0 (write_size io1)
       @ (if rem' > 0 then [Transient (bcount * write_size io1) rem'] else [])"
  from t(2) have pos: "write_size io1 \<noteq> 0"
    by (auto simp add: WRITE_SIZE_INITIAL_def WRITE_SIZE_MAX_def)
  have res: "bucketeer_buffer env io w = Some (io1\<lparr>io_output := io_output io1 @ cs\<rparr>, w1)"
    using pos
    by (simp add: bucketeer_buffer_def tw Let_def q_def bcount_def rem'_def cs_def)
  have "q \<le> buflen io div write_size io1" by (simp add: q_def)
  then have "bcount \<le> buflen io div write_size io1" by (simp add: bcount_def)
  then have "bcount * write_size io1 \<le> (buflen io div write_size io1) * write_size io1"
    by (rule mult_le_mono1)
  also have "\<dots> \<le> buflen io" by simp
  finally have fit: "bcount * write_size io1 \<le> buflen io" .
  have "chunk_bytes (buffer io) cs
        = take (bcount * write_size io1) (buffer io)
          @ take rem' (drop (bcount * write_size io1) (buffer io))"
    by (simp add: cs_def chunk_bytes_append bucketeer_chunks_bytes)
       (simp add: chunk_bytes_def on_wire_def wire_bytes_of_def)
  also have "\<dots> = take (bcount * write_size io1 + rem') (buffer io)"
    by (simp add: take_add)
  also have "bcount * write_size io1 + rem' = buflen io"
    using fit by (simp add: rem'_def)
  finally have bytes: "chunk_bytes (buffer io) cs = take (buflen io) (buffer io)" .
  have "brigade_length cs = bcount * write_size io1 + rem'"
    by (simp add: cs_def brigade_length_def bucket_length_def
        bucketeer_chunks_length [unfolded brigade_length_def])
  with fit have blen: "brigade_length cs = buflen io" by (simp add: rem'_def)
  let ?io' = "io1\<lparr>io_output := io_output io1 @ cs\<rparr>"
  have out: "io_output io1 = io_output io" by (subst t(1)) simp
  have eq: "?io' = io\<lparr>write_size := write_size ?io', bytes_written := bytes_written ?io',
                       io_output := io_output io @ cs\<rparr>"
    by (subst t(1)) (simp add: out)
  have tune': "tune_inv io w \<longrightarrow> tune_inv ?io' w1"
    using t(4) by (simp add: tune_inv_frame)
  show ?thesis
    using res eq bytes blen t(2,3) tune'
    by (intro exI [of _ ?io'] exI [of _ w1] exI [of _ cs]) simp
qed


lemma event_bytes_Passed:
  "event_bytes (Passed t (map (on_wire buf) bb)) = chunk_bytes buf bb"
  by (simp add: event_bytes_def chunk_bytes_def comp_def)

text \<open>
  \<open>flush_out\<close>: on success the bytes of the output brigade are on the wire, in order;
  in any case the brigade is empty afterwards.
\<close>

lemma flush_out_result:
  assumes fo: "flush_out env io w = (st, io', w')"
  shows "io' = io\<lparr>bytes_written := bytes_written io', last_write := last_write io',
                    io_output := []\<rparr>"
    and "st = APR_SUCCESS \<Longrightarrow>
           wire_bytes (trace w') = wire_bytes (trace w) @ chunk_bytes (buffer io) (io_output io)"
    and "tune_inv io w \<Longrightarrow> length (chunk_bytes (buffer io) (io_output io))
                                = brigade_length (io_output io) \<Longrightarrow> tune_inv io' w'"
proof -
  define t where "t = time_now env (calls w + 1)"
  show "io' = io\<lparr>bytes_written := bytes_written io', last_write := last_write io',
                    io_output := []\<rparr>"
    using fo by (auto simp add: flush_out_def Let_def split: if_splits)
  show "wire_bytes (trace w') = wire_bytes (trace w) @ chunk_bytes (buffer io) (io_output io)"
    if "st = APR_SUCCESS"
    using fo that
    by (auto simp add: flush_out_def Let_def wire_bytes_snoc event_bytes_Passed
        split: if_splits)
  show "tune_inv io' w'"
    if inv: "tune_inv io w"
      and ex: "length (chunk_bytes (buffer io) (io_output io)) = brigade_length (io_output io)"
  proof (cases "pass_brigade env (calls w) = APR_SUCCESS")
    case True
    with fo have r: "io' = io\<lparr>bytes_written := size_wrap (bytes_written io
                                   + brigade_length (io_output io)),
                          last_write := t, io_output := []\<rparr>"
      "trace w' = trace w @ [Passed t (map (on_wire (buffer io)) (io_output io))]"
      by (auto simp add: flush_out_def Let_def t_def)
    from inv obtain wsz cum lp where
      rp: "tune_replay (trace w) = Some (wsz, cum, lp)"
      and f: "write_size io = wsz" "bytes_written io = cum mod 2 ^ 64"
      by (auto simp add: tune_inv_def split: option.splits)
    have len: "length (concat (map wire_bytes_of (map (on_wire (buffer io)) (io_output io))))
               = brigade_length (io_output io)"
      using ex by (simp add: chunk_bytes_def comp_def)
    have "size_wrap (cum mod 2 ^ 64 + brigade_length (io_output io))
          = (cum + brigade_length (io_output io)) mod 2 ^ 64"
      unfolding size_wrap_def by (rule mod_add_left_eq)
    with rp f len show ?thesis
      by (simp add: tune_inv_def r tune_replay_snoc tune_step_def)
  next
    case False
    with fo have r: "io' = io\<lparr>io_output := []\<rparr>"
      "trace w' = trace w @ [PassFailed (pass_brigade env (calls w))]"
      by (auto simp add: flush_out_def Let_def)
    from inv obtain wsz cum lp where
      rp: "tune_replay (trace w) = Some (wsz, cum, lp)"
      by (auto simp add: tune_inv_def split: option.splits)
    with inv show ?thesis
      by (simp add: tune_inv_def r tune_replay_snoc tune_step_def split: option.splits)
  qed
qed

lemma flush_out_accepts:
  assumes "transport_accepts env" and "flush_out env io w = (st, io', w')"
  shows "st = APR_SUCCESS"
  using assms by (auto simp add: transport_accepts_def flush_out_def Let_def split: if_splits)

lemma memcpy_result:
  assumes "off + n \<le> length dst" and "n \<le> length src"
  shows "\<exists>b. memcpy dst off src n = Some b \<and> length b = length dst
              \<and> take (off + n) b = take off dst @ take n src"
  using assms by (auto simp add: memcpy_def min_def)

lemma buffer_size_facts:
  "0 < WRITE_BUFFER_SIZE" "WRITE_BUFFER_SIZE < 2 ^ 64"
  by (simp_all add: WRITE_BUFFER_SIZE_def)


lemma chan_ok_buffered:
  assumes "chan_ok io" and "buffer_output io"
  shows "write_size io = WRITE_SIZE_INITIAL \<or> write_size io = WRITE_SIZE_MAX"
    and "bufsize io = WRITE_BUFFER_SIZE" and "length (buffer io) = WRITE_BUFFER_SIZE"
    and "buflen io \<le> WRITE_BUFFER_SIZE" and "io_output io = []"
  using assms by (simp_all add: chan_ok_def)

lemma chan_ok_bufferedI:
  assumes "write_size io = WRITE_SIZE_INITIAL \<or> write_size io = WRITE_SIZE_MAX"
    and "bufsize io = WRITE_BUFFER_SIZE" and "length (buffer io) = WRITE_BUFFER_SIZE"
    and "buflen io \<le> WRITE_BUFFER_SIZE" and "io_output io = []"
    and "buffer_output io" and "unflushed io \<or> buflen io = 0"
  shows "chan_ok io"
  using assms by (auto simp add: chan_ok_def)

lemma pending_buffered: "io_output io = [] \<Longrightarrow> pending io = take (buflen io) (buffer io)"
  by (simp add: pending_def chunk_bytes_def)

text \<open>
  The loop of \<open>h2_conn_io_write\<close> on a buffering channel returns, and when it returns
  \<open>APR_SUCCESS\<close> every byte given to it is either on the wire or staged, in order.
\<close>

lemma write_buffered_result:
  assumes "chan_ok io" and "buffer_output io" and "unflushed io"
  shows "\<exists>st io' w'. write_buffered env io w buf status = Some (st, io', w')
           \<and> chan_ok io' \<and> buffer_output io' \<and> unflushed io'
           \<and> io_input io' = io_input io
           \<and> (tune_inv io w \<longrightarrow> tune_inv io' w')
           \<and> (st = APR_SUCCESS \<longrightarrow> status = APR_SUCCESS
                \<and> wire_bytes (trace w') @ pending io'
                    = wire_bytes (trace w) @ pending io @ buf)
           \<and> (status = APR_SUCCESS \<and> transport_accepts env \<longrightarrow> st = APR_SUCCESS)"
  using assms
proof (induction "2 * length buf + (if buflen io = bufsize io then 1 else 0)"
    arbitrary: io w buf status rule: less_induct)
  case less
  note ok = chan_ok_buffered [OF less.prems(1,2)]
  have avail: "size_sub (bufsize io) (buflen io) = WRITE_BUFFER_SIZE - buflen io"
    using ok(2,4) buffer_size_facts(2) by (simp add: size_sub_le)
  have pend: "pending io = take (buflen io) (buffer io)"
    using ok(5) by (rule pending_buffered)
  consider (stop) "\<not> (length buf > 0 \<and> status = APR_SUCCESS)"
    | (full) "length buf > 0" "status = APR_SUCCESS" "buflen io = WRITE_BUFFER_SIZE"
    | (part) "length buf > 0" "status = APR_SUCCESS" "buflen io < WRITE_BUFFER_SIZE"
        "length buf > WRITE_BUFFER_SIZE - buflen io"
    | (fits) "length buf > 0" "status = APR_SUCCESS" "buflen io < WRITE_BUFFER_SIZE"
        "length buf \<le> WRITE_BUFFER_SIZE - buflen io"
    using ok(4) by fastforce
  then show ?case
  proof cases
    case stop
    then have "write_buffered env io w buf status = Some (status, io, w)"
      by (subst write_buffered.simps) auto
    with stop less.prems show ?thesis by auto
  next
    case full
    from bucketeer_buffer_result [OF ok(1), of env w] obtain io1 w1 cs where
      b: "bucketeer_buffer env io w = Some (io1, w1)"
        "io1 = io\<lparr>write_size := write_size io1, bytes_written := bytes_written io1,
                       io_output := io_output io @ cs\<rparr>"
        "chunk_bytes (buffer io) cs = take (buflen io) (buffer io)"
        "brigade_length cs = buflen io"
        "write_size io1 = WRITE_SIZE_INITIAL \<or> write_size io1 = WRITE_SIZE_MAX"
        "wire_bytes (trace w1) = wire_bytes (trace w)"
        "tune_inv io w \<longrightarrow> tune_inv io1 w1"
      by blast
    have io1: "buffer io1 = buffer io" "io_output io1 = cs" "bufsize io1 = bufsize io"
      "buffer_output io1 = buffer_output io" "unflushed io1 = unflushed io"
      "io_input io1 = io_input io"
      by (subst b(2), simp add: ok(5))+
    obtain st' io2 w2 where fo: "flush_out env io1 w1 = (st', io2, w2)"
      by (cases "flush_out env io1 w1")
    note f = flush_out_result [OF fo]
    have io2: "buffer io2 = buffer io" "io_output io2 = []" "bufsize io2 = bufsize io"
      "buffer_output io2 = buffer_output io" "unflushed io2 = unflushed io"
      "io_input io2 = io_input io" "write_size io2 = write_size io1"
      by (subst f(1), simp add: io1)+
    let ?io3 = "io2\<lparr>buflen := 0\<rparr>"
    have ok3: "chan_ok ?io3"
      using io2 b(5) ok less.prems by (intro chan_ok_bufferedI) simp_all
    have exact: "length (chunk_bytes (buffer io1) (io_output io1)) = brigade_length (io_output io1)"
      using b(3,4) ok(3,4) by (simp add: io1)
    have tune3: "tune_inv io w \<longrightarrow> tune_inv ?io3 w2"
      using b(7) f(3) exact by (simp add: tune_inv_frame)
    have wire3: "wire_bytes (trace w2) @ pending ?io3 = wire_bytes (trace w) @ pending io"
      if "st' = APR_SUCCESS"
      using f(2) [OF that] b(3,6) pend by (simp add: io1 io2 pending_def chunk_bytes_def)
    have step: "write_buffered env io w buf status = write_buffered env ?io3 w2 buf st'"
      using full avail b(1) fo by (subst write_buffered.simps) (simp add: Let_def)
    have "2 * length buf + (if buflen ?io3 = bufsize ?io3 then 1 else 0)
          < 2 * length buf + (if buflen io = bufsize io then 1 else 0)"
      using full(3) ok(2) io2(3) buffer_size_facts(1) by simp
    from less.hyps [OF this ok3, where w = w2 and status = st'] less.prems io2
    obtain st io' w' where
      r: "write_buffered env ?io3 w2 buf st' = Some (st, io', w')"
        "chan_ok io'" "buffer_output io'" "unflushed io'" "io_input io' = io_input ?io3"
        "tune_inv ?io3 w2 \<longrightarrow> tune_inv io' w'"
        "st = APR_SUCCESS \<longrightarrow> st' = APR_SUCCESS
           \<and> wire_bytes (trace w') @ pending io' = wire_bytes (trace w2) @ pending ?io3 @ buf"
        "st' = APR_SUCCESS \<and> transport_accepts env \<longrightarrow> st = APR_SUCCESS"
      by auto
    have acc: "transport_accepts env \<longrightarrow> st' = APR_SUCCESS"
      using flush_out_accepts [OF _ fo] by simp
    from r wire3 tune3 io2 full(2) acc show ?thesis
      unfolding step by auto
  next
    case part
    let ?avail = "WRITE_BUFFER_SIZE - buflen io"
    from part ok(3) have "buflen io + ?avail \<le> length (buffer io)" "?avail \<le> length buf"
      by simp_all
    from memcpy_result [OF this] obtain b where
      m: "memcpy (buffer io) (buflen io) buf ?avail = Some b" "length b = length (buffer io)"
        "take (buflen io + ?avail) b = take (buflen io) (buffer io) @ take ?avail buf"
      by blast
    let ?io1 = "io\<lparr>buffer := b, buflen := size_wrap (buflen io + ?avail)\<rparr>"
    have bl: "size_wrap (buflen io + ?avail) = WRITE_BUFFER_SIZE"
      using part(3) buffer_size_facts(2) by (simp add: size_wrap_id)
    have bl': "size_wrap WRITE_BUFFER_SIZE = WRITE_BUFFER_SIZE"
      using buffer_size_facts(2) by (rule size_wrap_id)
    have ok1: "chan_ok ?io1"
      using ok m(2) less.prems by (intro chan_ok_bufferedI) (simp_all add: bl bl')
    have pend1: "pending ?io1 = pending io @ take ?avail buf"
      using m(3) part(3) ok(5) by (simp add: pending_buffered pend bl bl')
    have step: "write_buffered env io w buf status
                = write_buffered env ?io1 w (drop ?avail buf) status"
      using part avail m(1) by (subst write_buffered.simps) (simp add: Let_def)
    have "2 * length (drop ?avail buf) + (if buflen ?io1 = bufsize ?io1 then 1 else 0)
          < 2 * length buf + (if buflen io = bufsize io then 1 else 0)"
      using part(3,4) ok(2) bl' by auto
    from less.hyps [OF this ok1, where w = w and status = status] less.prems
    obtain st io' w' where
      r: "write_buffered env ?io1 w (drop ?avail buf) status = Some (st, io', w')"
        "chan_ok io'" "buffer_output io'" "unflushed io'" "io_input io' = io_input ?io1"
        "tune_inv ?io1 w \<longrightarrow> tune_inv io' w'"
        "st = APR_SUCCESS \<longrightarrow> status = APR_SUCCESS
           \<and> wire_bytes (trace w') @ pending io'
               = wire_bytes (trace w) @ pending ?io1 @ drop ?avail buf"
        "status = APR_SUCCESS \<and> transport_accepts env \<longrightarrow> st = APR_SUCCESS"
      by auto
    from r pend1 show ?thesis
      unfolding step by (auto simp add: tune_inv_frame)
  next
    case fits
    from fits ok(3) have "buflen io + length buf \<le> length (buffer io)" "length buf \<le> length buf"
      by simp_all
    from memcpy_result [OF this] obtain b where
      m: "memcpy (buffer io) (buflen io) buf (length buf) = Some b"
        "length b = length (buffer io)"
        "take (buflen io + length buf) b = take (buflen io) (buffer io) @ take (length buf) buf"
      by blast
    let ?io1 = "io\<lparr>buffer := b, buflen := size_wrap (buflen io + length buf)\<rparr>"
    have bl: "size_wrap (buflen io + length buf) = buflen io + length buf"
      using fits(3,4) buffer_size_facts(2) by (simp add: size_wrap_id)
    have ok1: "chan_ok ?io1"
      using ok m(2) less.prems fits(4) by (intro chan_ok_bufferedI) (simp_all add: bl)
    have pend1: "pending ?io1 = pending io @ buf"
      using m(3) ok(5) by (simp add: pending_buffered pend bl)
    have "write_buffered env io w buf status = Some (status, ?io1, w)"
      using fits avail m(1) by (subst write_buffered.simps) (simp add: Let_def)
    with ok1 pend1 less.prems fits(2) show ?thesis
      by (auto simp add: tune_inv_frame)
  qed
qed


lemma heap_brigade_exact:
  "list_all is_heap bb \<Longrightarrow> length (chunk_bytes buf bb) = brigade_length bb"
  by (induction bb)
     (auto simp add: chunk_bytes_def brigade_length_def bucket_length_def is_heap_def
        on_wire_def wire_bytes_of_def split: out_bucket.splits)

lemma heap_brigade_bytes:
  "list_all is_heap bb \<Longrightarrow> chunk_bytes buf bb = chunk_bytes buf' bb"
  by (induction bb)
     (auto simp add: chunk_bytes_def is_heap_def on_wire_def split: out_bucket.splits)

lemma chunk_bytes_Flush: "chunk_bytes buf [Flush] = []"
  by (simp add: chunk_bytes_def on_wire_def wire_bytes_of_def)

lemma chunk_bytes_Heap: "chunk_bytes buf [Heap s] = s"
  by (simp add: chunk_bytes_def on_wire_def wire_bytes_of_def)

lemma brigade_length_append:
  "brigade_length (xs @ ys) = brigade_length xs + brigade_length ys"
  by (simp add: brigade_length_def)

lemma brigade_length_Flush: "brigade_length [Flush] = 0"
  by (simp add: brigade_length_def bucket_length_def)

lemma brigade_length_Heap: "brigade_length [Heap s] = length s"
  by (simp add: brigade_length_def bucket_length_def)

lemma chan_ok_unbuffered:
  assumes "chan_ok io" and "\<not> buffer_output io"
  shows "write_size io = WRITE_SIZE_INITIAL \<or> write_size io = WRITE_SIZE_MAX"
    and "buflen io = 0" and "list_all is_heap (io_output io)"
  using assms by (simp_all add: chan_ok_def)

lemma chan_ok_flushed:
  assumes "write_size io' = WRITE_SIZE_INITIAL \<or> write_size io' = WRITE_SIZE_MAX"
    and "buffer_output io' \<longrightarrow>
           bufsize io' = WRITE_BUFFER_SIZE \<and> length (buffer io') = WRITE_BUFFER_SIZE"
    and "buflen io' = 0" and "io_output io' = []"
  shows "chan_ok io'"
  using assms by (auto simp add: chan_ok_def)

lemma chunk_bytes_Transient_of: "chunk_bytes buf [Transient_of s] = s"
  by (simp add: chunk_bytes_def on_wire_def wire_bytes_of_def)

lemma brigade_length_Transient_of: "brigade_length [Transient_of s] = length s"
  by (simp add: brigade_length_def bucket_length_def)

lemma heap_tail_Some:
  assumes "heap_tail bb = Some s"
  shows "bb = butlast bb @ [Heap s]"
proof -
  from assms have "bb \<noteq> []" and "last bb = Heap s"
    by (auto simp add: heap_tail_def split: if_splits out_bucket.splits)
  then show ?thesis by (metis append_butlast_last_id)
qed

lemma heap_tail_grow:
  assumes "heap_tail bb = Some s" and "list_all is_heap bb"
  shows "chunk_bytes buf (butlast bb @ [Heap (s @ str)]) = chunk_bytes buf bb @ str"
    and "list_all is_heap (butlast bb @ [Heap (s @ str)])"
proof -
  note e = heap_tail_Some [OF assms(1)]
  have "chunk_bytes buf bb = chunk_bytes buf (butlast bb) @ s"
    by (subst e) (simp add: chunk_bytes_append chunk_bytes_Heap)
  then show "chunk_bytes buf (butlast bb @ [Heap (s @ str)]) = chunk_bytes buf bb @ str"
    by (simp add: chunk_bytes_append chunk_bytes_Heap)
  from assms(2) have "list_all is_heap (butlast bb)"
    by (subst (asm) e) simp
  then show "list_all is_heap (butlast bb @ [Heap (s @ str)])"
    by (simp add: is_heap_def)
qed

text \<open>\<open>apr_brigade_write\<close> on a channel that does not buffer.\<close>

lemma apr_brigade_write_result:
  assumes ok: "chan_ok io" and nb: "\<not> buffer_output io" and unf: "unflushed io"
    and bw: "apr_brigade_write env io w buf = (st, io', w')"
  shows "chan_ok io'" and "\<not> buffer_output io'" and "unflushed io'"
    and "io_input io' = io_input io"
    and "tune_inv io w \<Longrightarrow> tune_inv io' w'"
    and "st = APR_SUCCESS \<Longrightarrow>
           wire_bytes (trace w') @ pending io' = wire_bytes (trace w) @ pending io @ buf"
    and "transport_accepts env \<Longrightarrow> st = APR_SUCCESS"
proof -
  note u = chan_ok_unbuffered [OF ok nb]
  define remaining where "remaining =
    (case heap_tail (io_output io) of
       None \<Rightarrow> APR_BUCKET_BUFF_SIZE
     | Some s \<Rightarrow> APR_BUCKET_BUFF_SIZE - length s)"
  let ?io1 = "io\<lparr>io_output := io_output io @ [Transient_of buf]\<rparr>"
  have pend: "pending io = chunk_bytes (buffer io) (io_output io)"
    using u(2) by (simp add: pending_def)
  have all: "chan_ok io' \<and> \<not> buffer_output io' \<and> unflushed io'
     \<and> io_input io' = io_input io
     \<and> (tune_inv io w \<longrightarrow> tune_inv io' w')
     \<and> (st = APR_SUCCESS \<longrightarrow>
           wire_bytes (trace w') @ pending io' = wire_bytes (trace w) @ pending io @ buf)
     \<and> (transport_accepts env \<longrightarrow> st = APR_SUCCESS)"
  proof (cases "length buf > remaining")
    case True
    with bw have fo: "flush_out env ?io1 w = (st, io', w')"
      by (simp add: apr_brigade_write_def Let_def remaining_def)
    note f = flush_out_result [OF fo]
    have io': "buffer io' = buffer io" "io_output io' = []" "bufsize io' = bufsize io"
      "buffer_output io' = buffer_output io" "unflushed io' = unflushed io"
      "io_input io' = io_input io" "write_size io' = write_size io" "buflen io' = buflen io"
      by (subst f(1), simp)+
    have ok': "chan_ok io'"
      using io' u nb by (intro chan_ok_flushed) simp_all
    have exact: "length (chunk_bytes (buffer ?io1) (io_output ?io1))
                 = brigade_length (io_output ?io1)"
      using heap_brigade_exact [OF u(3), of "buffer io"]
      by (simp add: chunk_bytes_append chunk_bytes_Transient_of brigade_length_append
          brigade_length_Transient_of)
    have "tune_inv io' w'" if "tune_inv io w"
      using f(3) that exact by (simp add: tune_inv_frame)
    moreover have "wire_bytes (trace w') @ pending io' = wire_bytes (trace w) @ pending io @ buf"
      if "st = APR_SUCCESS"
      using f(2) [OF that] io' u(2)
      by (simp add: pending_def pend chunk_bytes_append chunk_bytes_Transient_of)
         (simp add: chunk_bytes_def)
    moreover have "transport_accepts env \<longrightarrow> st = APR_SUCCESS"
      using flush_out_accepts [OF _ fo] by simp
    ultimately show ?thesis using ok' io' nb unf by simp
  next
    case False
    show ?thesis
    proof (cases "heap_tail (io_output io)")
      case None
      with False bw have r: "st = APR_SUCCESS"
        "io' = io\<lparr>io_output := io_output io @ [Heap buf]\<rparr>" "w' = w"
        by (simp_all add: apr_brigade_write_def Let_def remaining_def)
      have heap1: "list_all is_heap (io_output io @ [Heap buf])"
        using u(3) by (simp add: is_heap_def)
      have ok': "chan_ok io'"
        using ok nb unf heap1 by (simp add: r chan_ok_def)
      have "pending io' = pending io @ buf"
        using u(2) by (simp add: r pending_def chunk_bytes_append chunk_bytes_Heap)
      with ok' nb unf show ?thesis by (simp add: r tune_inv_frame)
    next
      case (Some s)
      with False bw have r: "st = APR_SUCCESS"
        "io' = io\<lparr>io_output := butlast (io_output io) @ [Heap (s @ buf)]\<rparr>" "w' = w"
        by (simp_all add: apr_brigade_write_def Let_def remaining_def)
      note g = heap_tail_grow [OF Some u(3)]
      have ok': "chan_ok io'"
        using ok nb unf g(2) by (simp add: r chan_ok_def)
      have "pending io' = pending io @ buf"
        using u(2) g(1) [of "buffer io" buf] by (simp add: r pending_def)
      with ok' nb unf show ?thesis by (simp add: r tune_inv_frame)
    qed
  qed
  from all show "chan_ok io'" and "\<not> buffer_output io'" and "unflushed io'"
    and "io_input io' = io_input io"
    and "tune_inv io w \<Longrightarrow> tune_inv io' w'"
    and "st = APR_SUCCESS \<Longrightarrow>
           wire_bytes (trace w') @ pending io' = wire_bytes (trace w) @ pending io @ buf"
    and "transport_accepts env \<Longrightarrow> st = APR_SUCCESS"
    by simp_all
qed

lemma chan_ok_unflushed: "chan_ok io \<Longrightarrow> chan_ok (io\<lparr>unflushed := True\<rparr>)"
  by (auto simp add: chan_ok_def split: if_splits)

lemma pending_unflushed: "pending (io\<lparr>unflushed := u\<rparr>) = pending io"
  by (simp add: pending_def)

text \<open>
  \<open>h2_conn_io_write\<close> returns, keeps the channel in shape, and when it returns
  \<open>APR_SUCCESS\<close> the bytes given to it follow the bytes the channel held.
\<close>

lemma h2_conn_io_write_result:
  assumes ok: "chan_ok io"
  shows "\<exists>st io' w'. h2_conn_io_write env io w buf = Some (st, io', w')
           \<and> chan_ok io' \<and> buffer_output io' = buffer_output io
           \<and> io_input io' = io_input io
           \<and> (tune_inv io w \<longrightarrow> tune_inv io' w')
           \<and> (st = APR_SUCCESS \<longrightarrow>
                wire_bytes (trace w') @ pending io' = wire_bytes (trace w) @ pending io @ buf)
           \<and> (transport_accepts env \<longrightarrow> st = APR_SUCCESS)"
proof (cases "buffer_output io")
  case True
  let ?io1 = "io\<lparr>unflushed := True\<rparr>"
  have "chan_ok ?io1" "buffer_output ?io1" "unflushed ?io1"
    using ok True by (simp_all add: chan_ok_unflushed)
  from write_buffered_result [OF this, of env w buf APR_SUCCESS]
  obtain st io' w' where
    r: "write_buffered env ?io1 w buf APR_SUCCESS = Some (st, io', w')"
      "chan_ok io'" "buffer_output io'" "io_input io' = io_input ?io1"
      "tune_inv ?io1 w \<longrightarrow> tune_inv io' w'"
      "st = APR_SUCCESS \<longrightarrow>
         wire_bytes (trace w') @ pending io' = wire_bytes (trace w) @ pending ?io1 @ buf"
      "transport_accepts env \<longrightarrow> st = APR_SUCCESS"
    by blast
  have "h2_conn_io_write env io w buf = Some (st, io', w')"
    using True r(1) by (simp add: h2_conn_io_write_def Let_def)
  with r True show ?thesis
    by (simp add: tune_inv_frame pending_unflushed)
next
  case False
  let ?io1 = "io\<lparr>unflushed := True\<rparr>"
  obtain st io' w' where bw: "apr_brigade_write env ?io1 w buf = (st, io', w')"
    by (cases "apr_brigade_write env ?io1 w buf")
  have p: "chan_ok ?io1" "\<not> buffer_output ?io1" "unflushed ?io1"
    using ok False by (simp_all add: chan_ok_unflushed)
  note r = apr_brigade_write_result [OF p bw]
  have "h2_conn_io_write env io w buf = Some (st, io', w')"
    using False bw by (simp add: h2_conn_io_write_def Let_def)
  with r False show ?thesis
    by (simp add: tune_inv_frame pending_unflushed)
qed


text \<open>
  \<open>h2_conn_io_flush\<close> returns, and when it returns \<open>APR_SUCCESS\<close> the bytes the
  channel held are on the wire and the channel holds none.
\<close>

lemma h2_conn_io_flush_result:
  assumes ok: "chan_ok io"
  shows "\<exists>st io' w'. h2_conn_io_flush env io w = Some (st, io', w')
           \<and> chan_ok io' \<and> buffer_output io' = buffer_output io
           \<and> io_input io' = io_input io
           \<and> (tune_inv io w \<longrightarrow> tune_inv io' w')
           \<and> (st = APR_SUCCESS \<longrightarrow>
                wire_bytes (trace w') = wire_bytes (trace w) @ pending io
                \<and> pending io' = [])
           \<and> (transport_accepts env \<longrightarrow> st = APR_SUCCESS)"
proof (cases "unflushed io")
  case False
  with ok have "pending io = []" by (simp add: chan_ok_def pending_def chunk_bytes_def)
  with False ok show ?thesis by (simp add: h2_conn_io_flush_def)
next
  case True
  have ws: "write_size io = WRITE_SIZE_INITIAL \<or> write_size io = WRITE_SIZE_MAX"
    using ok by (simp add: chan_ok_def)
  have buf: "buffer_output io \<longrightarrow>
           bufsize io = WRITE_BUFFER_SIZE \<and> length (buffer io) = WRITE_BUFFER_SIZE"
    using ok by (simp add: chan_ok_def)
  text \<open>The channel after the staged bytes, if any, have been cut into buckets.\<close>
  have "\<exists>io1 w1. (if buflen io > 0
               then map_option (\<lambda>(io1, w1). (io1\<lparr>buflen := 0\<rparr>, w1)) (bucketeer_buffer env io w)
               else Some (io, w)) = Some (io1, w1)
          \<and> io1 = io\<lparr>write_size := write_size io1, bytes_written := bytes_written io1,
                       io_output := io_output io1, buflen := 0\<rparr>
          \<and> chunk_bytes (buffer io) (io_output io1) = pending io
          \<and> length (chunk_bytes (buffer io) (io_output io1)) = brigade_length (io_output io1)
          \<and> (write_size io1 = WRITE_SIZE_INITIAL \<or> write_size io1 = WRITE_SIZE_MAX)
          \<and> wire_bytes (trace w1) = wire_bytes (trace w)
          \<and> (tune_inv io w \<longrightarrow> tune_inv io1 w1)"
  proof (cases "buflen io > 0")
    case True
    with ok have bo: "buffer_output io" by (auto simp add: chan_ok_def split: if_splits)
    note b = chan_ok_buffered [OF ok bo]
    from bucketeer_buffer_result [OF ws, of env w] obtain io1 w1 cs where
      r: "bucketeer_buffer env io w = Some (io1, w1)"
        "io1 = io\<lparr>write_size := write_size io1, bytes_written := bytes_written io1,
                       io_output := io_output io @ cs\<rparr>"
        "chunk_bytes (buffer io) cs = take (buflen io) (buffer io)"
        "brigade_length cs = buflen io"
        "write_size io1 = WRITE_SIZE_INITIAL \<or> write_size io1 = WRITE_SIZE_MAX"
        "wire_bytes (trace w1) = wire_bytes (trace w)"
        "tune_inv io w \<longrightarrow> tune_inv io1 w1"
      by blast
    have out: "io_output io1 = cs" by (subst r(2)) (simp add: b(5))
    let ?io2 = "io1\<lparr>buflen := 0\<rparr>"
    have eq: "?io2 = io\<lparr>write_size := write_size ?io2, bytes_written := bytes_written ?io2,
                       io_output := io_output ?io2, buflen := 0\<rparr>"
      by (subst r(2)) (simp add: out b(5))
    have p: "chunk_bytes (buffer io) (io_output ?io2) = pending io"
      using r(3) b(5) by (simp add: out pending_buffered)
    have e: "length (chunk_bytes (buffer io) (io_output ?io2)) = brigade_length (io_output ?io2)"
      using r(3,4) b(3,4) by (simp add: out)
    have res: "(if buflen io > 0
               then map_option (\<lambda>(io1, w1). (io1\<lparr>buflen := 0\<rparr>, w1)) (bucketeer_buffer env io w)
               else Some (io, w)) = Some (?io2, w1)"
      using True r(1) by simp
    have ws2: "write_size ?io2 = WRITE_SIZE_INITIAL \<or> write_size ?io2 = WRITE_SIZE_MAX"
      using r(5) by simp
    have t2: "tune_inv io w \<longrightarrow> tune_inv ?io2 w1"
      using r(7) by (simp add: tune_inv_frame)
    show ?thesis
      by (intro exI [of _ ?io2] exI [of _ w1] conjI) (rule res eq p e ws2 r(6) t2)+
  next
    case False
    then have z: "buflen io = 0" by simp
    have heap: "list_all is_heap (io_output io)"
      using ok by (auto simp add: chan_ok_def split: if_splits)
    have p: "chunk_bytes (buffer io) (io_output io) = pending io"
      by (simp add: pending_def z)
    have e: "length (chunk_bytes (buffer io) (io_output io)) = brigade_length (io_output io)"
      by (rule heap_brigade_exact [OF heap])
    have res: "(if buflen io > 0
               then map_option (\<lambda>(io1, w1). (io1\<lparr>buflen := 0\<rparr>, w1)) (bucketeer_buffer env io w)
               else Some (io, w)) = Some (io, w)"
      using False by simp
    have eq: "io = io\<lparr>write_size := write_size io, bytes_written := bytes_written io,
                       io_output := io_output io, buflen := 0\<rparr>"
      using z by (cases io) simp
    have t2: "tune_inv io w \<longrightarrow> tune_inv io w" by simp
    show ?thesis
      by (intro exI [of _ io] exI [of _ w] conjI) (rule res eq p e ws refl t2)+
  qed
  then obtain io1 w1 where
    s: "(if buflen io > 0
               then map_option (\<lambda>(io1, w1). (io1\<lparr>buflen := 0\<rparr>, w1)) (bucketeer_buffer env io w)
               else Some (io, w)) = Some (io1, w1)"
      "io1 = io\<lparr>write_size := write_size io1, bytes_written := bytes_written io1,
                       io_output := io_output io1, buflen := 0\<rparr>"
      "chunk_bytes (buffer io) (io_output io1) = pending io"
      "length (chunk_bytes (buffer io) (io_output io1)) = brigade_length (io_output io1)"
      "write_size io1 = WRITE_SIZE_INITIAL \<or> write_size io1 = WRITE_SIZE_MAX"
      "wire_bytes (trace w1) = wire_bytes (trace w)"
      "tune_inv io w \<longrightarrow> tune_inv io1 w1"
    by blast
  have io1: "buffer io1 = buffer io" "bufsize io1 = bufsize io"
    "buffer_output io1 = buffer_output io" "unflushed io1 = unflushed io"
    "io_input io1 = io_input io" "buflen io1 = 0"
    by (subst s(2), simp)+
  let ?io2 = "io1\<lparr>io_output := io_output io1 @ [Flush]\<rparr>"
  obtain st io3 w3 where fo: "flush_out env ?io2 w1 = (st, io3, w3)"
    by (cases "flush_out env ?io2 w1")
  note f = flush_out_result [OF fo]
  have io3: "buffer io3 = buffer io" "io_output io3 = []" "bufsize io3 = bufsize io"
    "buffer_output io3 = buffer_output io" "unflushed io3 = unflushed io"
    "io_input io3 = io_input io" "write_size io3 = write_size io1" "buflen io3 = 0"
    by (subst f(1), simp add: io1)+
  have ok3: "chan_ok io3"
    using io3 s(5) buf by (intro chan_ok_flushed) simp_all
  have p3: "pending io3 = []" by (simp add: pending_def io3 chunk_bytes_def)
  have exact: "length (chunk_bytes (buffer ?io2) (io_output ?io2)) = brigade_length (io_output ?io2)"
    using s(4) by (simp add: io1 chunk_bytes_append chunk_bytes_Flush brigade_length_append
        brigade_length_Flush)
  have tune3: "tune_inv io w \<longrightarrow> tune_inv io3 w3"
    using s(7) f(3) exact by (simp add: tune_inv_frame)
  have wire3: "wire_bytes (trace w3) = wire_bytes (trace w) @ pending io" if "st = APR_SUCCESS"
    using f(2) [OF that] s(3,6) by (simp add: io1 chunk_bytes_append chunk_bytes_Flush)
  show ?thesis
  proof (cases "st = APR_SUCCESS")
    case suc: True
    let ?io' = "io3\<lparr>unflushed := False\<rparr>"
    have res: "h2_conn_io_flush env io w = Some (st, ?io', w3)"
      using True s(1) fo suc by (simp add: h2_conn_io_flush_def)
    have ok': "chan_ok ?io'"
      using ok3 io3(2,8) by (auto simp add: chan_ok_def split: if_splits)
    have p': "pending ?io' = []" using p3 by (simp add: pending_unflushed)
    have fr: "buffer_output ?io' = buffer_output io" "io_input ?io' = io_input io"
      using io3 by simp_all
    have t': "tune_inv io w \<longrightarrow> tune_inv ?io' w3"
      using tune3 by (simp add: tune_inv_frame)
    have d: "st = APR_SUCCESS \<longrightarrow>
                wire_bytes (trace w3) = wire_bytes (trace w) @ pending io \<and> pending ?io' = []"
      using wire3 p' by simp
    have acc: "transport_accepts env \<longrightarrow> st = APR_SUCCESS" using suc by simp
    show ?thesis
      by (intro exI [of _ st] exI [of _ ?io'] exI [of _ w3] conjI) (rule res ok' fr t' d acc)+
  next
    case fail: False
    have res: "h2_conn_io_flush env io w = Some (st, io3, w3)"
      using True s(1) fo fail by (simp add: h2_conn_io_flush_def)
    have d: "st = APR_SUCCESS \<longrightarrow>
                wire_bytes (trace w3) = wire_bytes (trace w) @ pending io \<and> pending io3 = []"
      using fail by simp
    have acc: "transport_accepts env \<longrightarrow> st = APR_SUCCESS"
      using flush_out_accepts [OF _ fo] by blast
    show ?thesis
      by (intro exI [of _ st] exI [of _ io3] exI [of _ w3] conjI)
         (rule res ok3 io3(4) io3(6) tune3 d acc)+
  qed
qed


section \<open>Theorems: the channel, reading\<close>






















section \<open>Theorems: histories of calls on a channel\<close>

lemma h2_conn_io_read_frame:
  assumes "h2_conn_io_read env io w block cb u = Some (st, io', w', u')"
  shows "io' = io\<lparr>io_input := io_input io'\<rparr>" and "trace w' = trace w"
proof -
  have "io' = io\<lparr>io_input := io_input io'\<rparr> \<and> trace w' = trace w"
    using assms
    by (auto simp add: h2_conn_io_read_def h2_conn_io_bucket_read_def Let_def
        split: option.splits if_splits sum.splits prod.splits)
  then show "io' = io\<lparr>io_input := io_input io'\<rparr>" and "trace w' = trace w" by simp_all
qed

lemma chan_ok_input: "chan_ok (io\<lparr>io_input := x\<rparr>) = chan_ok io"
  by (simp add: chan_ok_def)

lemma tune_inv_trace: "trace w' = trace w \<Longrightarrow> tune_inv io w' = tune_inv io w"
  by (simp add: tune_inv_def)

text \<open>Every call that returns keeps the channel in shape and satisfies the monitor.\<close>

lemma apply_op_inv:
  assumes "apply_op env io w x = Some (st, io', w')" and "chan_ok io" and "tune_inv io w"
  shows "chan_ok io' \<and> tune_inv io' w'"
proof (cases x)
  case (DoWrite buf)
  from h2_conn_io_write_result [OF assms(2), of env w buf] assms(1,3) DoWrite
  show ?thesis by (auto simp add: apply_op_def)
next
  case DoFlush
  from h2_conn_io_flush_result [OF assms(2), of env w] assms(1,3) DoFlush
  show ?thesis by (auto simp add: apply_op_def)
next
  case (DoRead block cb u)
  with assms(1) obtain u' where r: "h2_conn_io_read env io w block cb u = Some (st, io', w', u')"
    by (auto simp add: apply_op_def split: option.splits)
  note f = h2_conn_io_read_frame [OF r]
  have "chan_ok io'" using assms(2) by (subst f(1)) (simp add: chan_ok_input)
  moreover have "tune_inv io' w'"
    using assms(3) by (subst f(1)) (simp add: tune_inv_frame tune_inv_trace [OF f(2)])
  ultimately show ?thesis by simp
qed

lemma run_ops_inv:
  assumes "run_ops env io w xs = Some (sts, io', w')" and "chan_ok io" and "tune_inv io w"
  shows "chan_ok io' \<and> tune_inv io' w'"
  using assms
proof (induction xs arbitrary: io w sts)
  case Nil
  then show ?case by simp
next
  case (Cons x xs)
  from Cons.prems(1) obtain st io1 w1 sts1 where
    a: "apply_op env io w x = Some (st, io1, w1)"
    and r: "run_ops env io1 w1 xs = Some (sts1, io', w')"
    by (auto split: option.splits)
  from apply_op_inv [OF a Cons.prems(2,3)] have "chan_ok io1" "tune_inv io1 w1" by simp_all
  from Cons.IH [OF r this] show ?case .
qed

text \<open>
  A history without reads returns, and while every call returns \<open>APR_SUCCESS\<close>, the
  bytes on the wire followed by the bytes the channel holds are the bytes written.
\<close>

lemma run_ops_output:
  assumes "chan_ok io" and "list_all (\<lambda>x. \<not> is_read x) xs"
  shows "\<exists>sts io' w'. run_ops env io w xs = Some (sts, io', w') \<and> chan_ok io'
           \<and> (all_success sts \<longrightarrow>
                wire_bytes (trace w') @ pending io'
                  = wire_bytes (trace w) @ pending io @ written xs)
           \<and> (transport_accepts env \<longrightarrow> all_success sts)"
  using assms
proof (induction xs arbitrary: io w)
  case Nil
  then show ?case by (simp add: written_def all_success_def)
next
  case (Cons x xs)
  from Cons.prems(2) have nr: "\<not> is_read x" and rest: "list_all (\<lambda>x. \<not> is_read x) xs"
    by simp_all
  have "\<exists>st io1 w1. apply_op env io w x = Some (st, io1, w1) \<and> chan_ok io1
          \<and> (st = APR_SUCCESS \<longrightarrow>
               wire_bytes (trace w1) @ pending io1
                 = wire_bytes (trace w) @ pending io @ op_bytes x)
          \<and> (transport_accepts env \<longrightarrow> st = APR_SUCCESS)"
  proof (cases x)
    case (DoWrite buf)
    from h2_conn_io_write_result [OF Cons.prems(1), of env w buf] DoWrite
    show ?thesis by (auto simp add: apply_op_def op_bytes_def)
  next
    case DoFlush
    from h2_conn_io_flush_result [OF Cons.prems(1), of env w] DoFlush
    show ?thesis by (auto simp add: apply_op_def op_bytes_def)
  next
    case (DoRead block cb u)
    with nr show ?thesis by (simp add: is_read_def)
  qed
  then obtain st io1 w1 where
    a: "apply_op env io w x = Some (st, io1, w1)" "chan_ok io1"
      "st = APR_SUCCESS \<longrightarrow>
               wire_bytes (trace w1) @ pending io1
                 = wire_bytes (trace w) @ pending io @ op_bytes x"
      "transport_accepts env \<longrightarrow> st = APR_SUCCESS"
    by blast
  from Cons.IH [OF a(2) rest, of w1] obtain sts io' w' where
    r: "run_ops env io1 w1 xs = Some (sts, io', w')" "chan_ok io'"
      "all_success sts \<longrightarrow>
                wire_bytes (trace w') @ pending io'
                  = wire_bytes (trace w1) @ pending io1 @ written xs"
      "transport_accepts env \<longrightarrow> all_success sts"
    by blast
  have "run_ops env io w (x # xs) = Some (st # sts, io', w')"
    using a(1) r(1) by simp
  moreover have "wire_bytes (trace w') @ pending io'
                  = wire_bytes (trace w) @ pending io @ written (x # xs)"
    if "all_success (st # sts)"
  proof -
    from that have "st = APR_SUCCESS" "all_success sts" by (simp_all add: all_success_def)
    with a(3) r(3) show ?thesis by (simp add: written_def)
  qed
  moreover have "transport_accepts env \<longrightarrow> all_success (st # sts)"
    using a(4) r(4) by (simp add: all_success_def)
  ultimately show ?case using r(2) by blast
qed

lemma h2_conn_io_init_ok:
  "chan_ok (h2_conn_io_init g h2_conn_io_zero c)"
  "tune_inv (h2_conn_io_init g h2_conn_io_zero c) world0"
  "pending (h2_conn_io_init g h2_conn_io_zero c) = []"
  by (simp_all add: h2_conn_io_init_def h2_conn_io_zero_def Let_def chan_ok_def tune_inv_def
      tune_replay_def world0_def pending_def chunk_bytes_def WRITE_SIZE_INITIAL_def)

lemma run_ops_append:
  "run_ops env io w (xs @ ys) =
     (case run_ops env io w xs of
        None \<Rightarrow> None
      | Some (sts, io1, w1) \<Rightarrow>
          (case run_ops env io1 w1 ys of
             None \<Rightarrow> None
           | Some (sts2, io2, w2) \<Rightarrow> Some (sts @ sts2, io2, w2)))"
  by (induction xs arbitrary: io w) (auto split: option.splits)

text \<open>
  C1, as stated, fails. On a channel as \<open>h2_conn_io_init\<close> leaves it, \<open>abc\<close> is
  written and the flush that follows fails in the transport: \<open>flush_out\<close> cleans the
  brigade all the same. The next flush succeeds, \<open>def\<close> is written and flushed. Of
  the six bytes written, only \<open>def\<close> has been passed to the transport.
\<close>

theorem C1_failed_pass_counterexample:
  "map_option (\<lambda>(sts, io, w). (sts, trace w, wire_bytes (trace w)))
     (run_ops flaky_env clear_io world0 (lost_talk @ [DoFlush]))
   = Some ([0, 20014, 0, 0, 0],
           [PassFailed 20014, Passed 1000020000 [FlushMark],
            Passed 1000040000 [Bytes ''def'', FlushMark]],
           ''def'')
   \<and> written lost_talk = ''abcdef''"
  by (simp add: clear_io_def h2_conn_io_init_def h2_conn_io_zero_def Let_def
      h2_h2_is_tls_def h2_h2_init_def mod_ssl_fns_def clear_conn_def tls_conn_def
      lost_talk_def apply_op_def h2_conn_io_write_def apr_brigade_write_def heap_tail_def
      APR_BUCKET_BUFF_SIZE_def h2_conn_io_flush_def flush_out_def flaky_env_def smooth_env_def
      world0_def brigade_length_def bucket_length_def on_wire_def
      size_wrap_def APR_SUCCESS_def APR_EGENERAL_def WRITE_SIZE_INITIAL_def
      wire_bytes_def event_bytes_def wire_bytes_of_def written_def op_bytes_def)

text \<open>
  C1, amended: for every sequence of write and flush calls on a channel as
  \<open>h2_conn_io_init\<close> leaves it, buffered or not, whatever the clock, the transport
  and the write size tuning do: the calls followed by a flush all return; when all of
  them returned success, the bytes passed to the transport, concatenated in the order
  they were passed, are the bytes given to write, concatenated in the order they were
  given; and all of them do return success when the transport accepts every brigade.
\<close>

theorem C1_buffering_lossless:
  assumes "list_all (\<lambda>x. \<not> is_read x) xs"
  shows "\<exists>sts io' w'.
           run_ops env (h2_conn_io_init g h2_conn_io_zero c) world0 (xs @ [DoFlush])
             = Some (sts, io', w')
           \<and> (all_success sts \<longrightarrow> wire_bytes (trace w') = written xs)
           \<and> (transport_accepts env \<longrightarrow> all_success sts)"
proof -
  let ?io0 = "h2_conn_io_init g h2_conn_io_zero c"
  from run_ops_output [OF h2_conn_io_init_ok(1) assms, of env g c world0]
  obtain sts io1 w1 where
    r: "run_ops env ?io0 world0 xs = Some (sts, io1, w1)" "chan_ok io1"
      "all_success sts \<longrightarrow>
         wire_bytes (trace w1) @ pending io1
           = wire_bytes (trace world0) @ pending ?io0 @ written xs"
      "transport_accepts env \<longrightarrow> all_success sts"
    by blast
  from h2_conn_io_flush_result [OF r(2), of env w1] obtain st io' w' where
    f: "h2_conn_io_flush env io1 w1 = Some (st, io', w')"
      "st = APR_SUCCESS \<longrightarrow>
         wire_bytes (trace w') = wire_bytes (trace w1) @ pending io1 \<and> pending io' = []"
      "transport_accepts env \<longrightarrow> st = APR_SUCCESS"
    by blast
  have run: "run_ops env ?io0 world0 (xs @ [DoFlush]) = Some (sts @ [st], io', w')"
    using r(1) f(1) by (simp add: run_ops_append apply_op_def)
  have "wire_bytes (trace w') = written xs" if "all_success (sts @ [st])"
  proof -
    from that have "all_success sts" "st = APR_SUCCESS" by (simp_all add: all_success_def)
    with r(3) f(2) show ?thesis
      by (simp add: h2_conn_io_init_ok(3) world0_def wire_bytes_def)
  qed
  moreover have "transport_accepts env \<longrightarrow> all_success (sts @ [st])"
    using r(4) f(3) by (simp add: all_success_def)
  ultimately show ?thesis using run by blast
qed

text \<open>
  C8: in every state that a channel reaches from \<open>h2_conn_io_init\<close> by write, flush and
  read calls, \<open>write_size\<close> lies between 1300 and 16384, and it is the size that the
  monitor \<open>tune_replay\<close> computes from the trace: every change of the size in the run
  was a reset to 1300 at a clock reading at least one second after the last
  successful pass, or a growth to 16384 with at least 1 MiB passed on since the last
  reset.
\<close>

theorem C8_write_size_bounds:
  assumes "run_ops env (h2_conn_io_init g h2_conn_io_zero c) world0 xs = Some (sts, io, w)"
  shows "1300 \<le> write_size io \<and> write_size io \<le> 16384
         \<and> map_option fst (tune_replay (trace w)) = Some (write_size io)"
proof -
  from run_ops_inv [OF assms h2_conn_io_init_ok(1,2)]
  have ok: "chan_ok io" and t: "tune_inv io w" by simp_all
  from ok have "write_size io = 1300 \<or> write_size io = 16384"
    by (simp add: chan_ok_def WRITE_SIZE_INITIAL_def WRITE_SIZE_MAX_def)
  moreover from t have "map_option fst (tune_replay (trace w)) = Some (write_size io)"
    by (auto simp add: tune_inv_def split: option.splits)
  ultimately show ?thesis by auto
qed

lemma bucketeer_chunks_numeral:
  "bucketeer_chunks (numeral k) data ws
   = Transient data ws # bucketeer_chunks (pred_numeral k) (data + ws) ws"
  by (simp add: numeral_eq_Suc)

lemma tls_io_eq:
  "tls_io = h2_conn_io_zero\<lparr>write_size := 1300, buffer_output := True, bufsize := 65536,
                            buffer := replicate 65536 (CHR 0x00)\<rparr>"
  by (simp add: tls_io_def h2_conn_io_init_def h2_conn_io_zero_def Let_def
      h2_conn_io_zero_def h2_h2_is_tls_def h2_h2_init_def mod_ssl_fns_def tls_conn_def
      WRITE_SIZE_INITIAL_def WRITE_BUFFER_SIZE_def)

text \<open>The same bytes through a buffering channel and through one that does not buffer.\<close>

lemma small_talk_tls_run:
  "map_option (\<lambda>(sts, io, w). (sts, trace w))
     (run_ops smooth_env tls_io world0 (small_talk @ [DoFlush]))
   = Some ([0, 0, 0, 0, 0],
           [Passed 1000010000 [Bytes ''abc'', FlushMark],
            Passed 1000030000 [Bytes ''def'', FlushMark]])"
  by (simp add: tls_io_eq small_talk_def apply_op_def h2_conn_io_write_def
      h2_conn_io_flush_def flush_out_def Let_def smooth_env_def write_buffered.simps
      bucketeer_buffer_def tune_write_size_def memcpy_def
      world0_def h2_conn_io_zero_def brigade_length_def bucket_length_def on_wire_def
      size_wrap_def size_sub_def APR_SUCCESS_def WRITE_SIZE_INITIAL_def WRITE_SIZE_MAX_def
      WRITE_SIZE_THRESHOLD_def WRITE_SIZE_IDLE_USEC_def bucketeer_chunks_numeral)

lemma small_talk_clear_run:
  "map_option (\<lambda>(sts, io, w). (sts, trace w))
     (run_ops smooth_env clear_io world0 (small_talk @ [DoFlush]))
   = Some ([0, 0, 0, 0, 0],
           [Passed 1000010000 [Bytes ''abc'', FlushMark],
            Passed 1000030000 [Bytes ''def'', FlushMark]])"
  by (simp add: clear_io_def h2_conn_io_init_def h2_conn_io_zero_def Let_def
      h2_h2_is_tls_def h2_h2_init_def mod_ssl_fns_def clear_conn_def tls_conn_def
      small_talk_def apply_op_def h2_conn_io_write_def apr_brigade_write_def heap_tail_def
      APR_BUCKET_BUFF_SIZE_def h2_conn_io_flush_def flush_out_def smooth_env_def
      world0_def brigade_length_def bucket_length_def on_wire_def
      size_wrap_def APR_SUCCESS_def WRITE_SIZE_INITIAL_def)

theorem C1_buffering_lossless_witness:
  "list_all (\<lambda>x. \<not> is_read x) small_talk
   \<and> transport_accepts smooth_env
   \<and> written small_talk = ''abcdef''
   \<and> (\<exists>sts io' w'. run_ops smooth_env tls_io world0 (small_talk @ [DoFlush])
                      = Some (sts, io', w')
          \<and> all_success sts \<and> wire_bytes (trace w') = ''abcdef''
          \<and> trace w' = [Passed 1000010000 [Bytes ''abc'', FlushMark],
                         Passed 1000030000 [Bytes ''def'', FlushMark]])
   \<and> (\<exists>sts io' w'. run_ops smooth_env clear_io world0 (small_talk @ [DoFlush])
                      = Some (sts, io', w')
          \<and> all_success sts \<and> wire_bytes (trace w') = ''abcdef''
          \<and> trace w' = [Passed 1000010000 [Bytes ''abc'', FlushMark],
                         Passed 1000030000 [Bytes ''def'', FlushMark]])"
proof -
  have h: "list_all (\<lambda>x. \<not> is_read x) small_talk"
    by (simp add: small_talk_def is_read_def)
  have acc: "transport_accepts smooth_env"
    by (simp add: transport_accepts_def smooth_env_def)
  have wr: "written small_talk = ''abcdef''"
    by (simp add: small_talk_def written_def op_bytes_def)
  from C1_buffering_lossless [OF h, of smooth_env "h2_h2_init mod_ssl_fns" tls_conn] acc
  obtain sts io' w' where
    r: "run_ops smooth_env tls_io world0 (small_talk @ [DoFlush]) = Some (sts, io', w')"
      "all_success sts" "wire_bytes (trace w') = written small_talk"
    unfolding tls_io_def by blast
  from small_talk_tls_run [unfolded r(1)]
  have t: "trace w' = [Passed 1000010000 [Bytes ''abc'', FlushMark],
                       Passed 1000030000 [Bytes ''def'', FlushMark]]"
    by simp
  from C1_buffering_lossless [OF h, of smooth_env "h2_h2_init mod_ssl_fns" clear_conn] acc
  obtain sts2 io2 w2 where
    r2: "run_ops smooth_env clear_io world0 (small_talk @ [DoFlush]) = Some (sts2, io2, w2)"
      "all_success sts2" "wire_bytes (trace w2) = written small_talk"
    unfolding clear_io_def by blast
  from small_talk_clear_run [unfolded r2(1)]
  have t2: "trace w2 = [Passed 1000010000 [Bytes ''abc'', FlushMark],
                        Passed 1000030000 [Bytes ''def'', FlushMark]]"
    by simp
  from r t wr have a: "\<exists>sts io' w'. run_ops smooth_env tls_io world0 (small_talk @ [DoFlush])
                      = Some (sts, io', w')
          \<and> all_success sts \<and> wire_bytes (trace w') = ''abcdef''
          \<and> trace w' = [Passed 1000010000 [Bytes ''abc'', FlushMark],
                         Passed 1000030000 [Bytes ''def'', FlushMark]]"
    by simp
  from r2 t2 wr have b: "\<exists>sts io' w'. run_ops smooth_env clear_io world0 (small_talk @ [DoFlush])
                      = Some (sts, io', w')
          \<and> all_success sts \<and> wire_bytes (trace w') = ''abcdef''
          \<and> trace w' = [Passed 1000010000 [Bytes ''abc'', FlushMark],
                         Passed 1000030000 [Bytes ''def'', FlushMark]]"
    by simp
  from h acc wr a b show ?thesis by blast
qed

text \<open>
  A buffering channel that passes 1 MiB on, two bytes more at once, and a last byte
  after a pause of two seconds: the write size grows to 16384 and is reset to 1300.
\<close>

lemma busy_run:
  "map_option (\<lambda>(sts, io, w). (sts, write_size io, filter is_tuning (trace w)))
     (run_ops idle_env tls_io world0 busy_then_idle)
   = Some ([0, 0, 0, 0, 0, 0, 0, 0], 1300,
           [WriteSizeMax 16384, WriteSizeReset 1002370000 1300])"
  by (simp add: tls_io_eq busy_then_idle_def apply_op_def h2_conn_io_write_def
      h2_conn_io_flush_def flush_out_def Let_def smooth_env_def idle_env_def write_buffered.simps
      bucketeer_buffer_def tune_write_size_def memcpy_def is_tuning_def
      world0_def h2_conn_io_zero_def brigade_length_def bucket_length_def on_wire_def
      size_wrap_def size_sub_def APR_SUCCESS_def WRITE_SIZE_INITIAL_def WRITE_SIZE_MAX_def
      WRITE_SIZE_THRESHOLD_def WRITE_SIZE_IDLE_USEC_def bucketeer_chunks_numeral)

theorem C8_write_size_bounds_witness:
  "\<exists>sts io w. run_ops idle_env tls_io world0 busy_then_idle = Some (sts, io, w)
     \<and> all_success sts
     \<and> filter is_tuning (trace w) = [WriteSizeMax 16384, WriteSizeReset 1002370000 1300]
     \<and> write_size io = 1300
     \<and> map_option fst (tune_replay (trace w)) = Some 1300"
proof -
  obtain sts io w where r: "run_ops idle_env tls_io world0 busy_then_idle = Some (sts, io, w)"
    using busy_run by (cases "run_ops idle_env tls_io world0 busy_then_idle") auto
  from busy_run [unfolded r]
  have v: "sts = [0, 0, 0, 0, 0, 0, 0, 0]" "write_size io = 1300"
    "filter is_tuning (trace w) = [WriteSizeMax 16384, WriteSizeReset 1002370000 1300]"
    by simp_all
  from C8_write_size_bounds [OF r [unfolded tls_io_def]] v(2)
  have "map_option fst (tune_replay (trace w)) = Some 1300" by simp
  moreover from v(1) have "all_success sts" by (simp add: all_success_def APR_SUCCESS_def)
  ultimately show ?thesis using r v by blast
qed

text \<open>The monitor is not satisfied by every trace.\<close>

lemma tune_replay_rejects:
  "tune_replay [WriteSizeMax 16384] = None"
  "tune_replay [Passed 5 [Bytes ''abc''], WriteSizeReset 2000000 1300] = None"
  "tune_replay [WriteSizeMax 1300] = None"
  by (simp_all add: tune_replay_def tune_step_def)


section \<open>Theorems: the split read\<close>








end
